theory Spec2Isabelle
  imports Complex_Main "HOL-Library.Word" "HOL-Library.Sublist"
begin

section \<open>hextoc.py: binary data rendered as a C \<open>unsigned char\<close> array\<close>

text \<open>
  The two formatters of \<^verbatim>\<open>src/hextoc.py\<close>, \<^verbatim>\<open>binary_to_c_array\<close> (string literal
  with \<^verbatim>\<open>\xHH\<close> escapes) and \<^verbatim>\<open>binary_to_c_array_multiline\<close> (brace list of
  \<^verbatim>\<open>0xHH\<close> values), are embedded below. A byte is an 8-bit word, the line width is a
  Python integer (\<open>int\<close>, so zero and negative widths are inputs too), an exception is
  the left summand of the result. The list \<^verbatim>\<open>output\<close> that both functions build by
  \<^verbatim>\<open>append\<close> and \<^verbatim>\<open>+=\<close> lives in a frame next to the caller's \<^verbatim>\<open>data\<close> object, and
  every statement of the loop is a function from frame to frame (the field is named
  \<open>output_list\<close>, \<open>output\<close> being a keyword here). The defaults of the two
  optional parameters (\<^verbatim>\<open>"buf"\<close> and 12) are what \<^verbatim>\<open>main\<close> passes when the options are
  absent; the embedding takes both parameters explicitly.
\<close>

subsection \<open>Characters and Python primitives\<close>

type_synonym byte = "8 word"

datatype error = ValueError | IndexError

definition newline :: char where
  "newline = CHR 0x0A"

definition backslash :: char where
  "backslash = CHR 0x5C"

definition dquote :: char where
  "dquote = CHR 0x22"

text \<open>
  The digit table of Python's \<^verbatim>\<open>X\<close> presentation type (upper case). It is only ever
  indexed with a value below 16.
\<close>

definition hex_digit :: "nat \<Rightarrow> char" where
  "hex_digit k = ''0123456789ABCDEF'' ! k"

text \<open>\<^verbatim>\<open>format(n, "X")\<close> for a non-negative integer: the digits, most significant first.\<close>

fun hex_upper :: "nat \<Rightarrow> string" where
  "hex_upper n = (if n < 16 then [hex_digit n] else hex_upper (n div 16) @ [hex_digit (n mod 16)])"

declare hex_upper.simps [simp del]

text \<open>\<^verbatim>\<open>f"{n:02X}"\<close>: the upper-case digits, zero-padded on the left to width 2.\<close>

definition fmt_02X :: "nat \<Rightarrow> string" where
  "fmt_02X n = (let s = hex_upper n in replicate (2 - length s) (CHR ''0'') @ s)"

text \<open>
  \<^verbatim>\<open>str(n)\<close> for a non-negative integer, as in \<^verbatim>\<open>f"{len(data)}"\<close>; the digit table is
  indexed with a value below 10.
\<close>

fun str_nat :: "nat \<Rightarrow> string" where
  "str_nat n = (if n < 10 then [''0123456789'' ! n] else str_nat (n div 10) @ [''0123456789'' ! (n mod 10)])"

declare str_nat.simps [simp del]

text \<open>\<^verbatim>\<open>sep.join(xs)\<close>.\<close>

fun py_join :: "string \<Rightarrow> string list \<Rightarrow> string" where
  "py_join sep [] = []"
| "py_join sep [x] = x"
| "py_join sep (x # y # ys) = x @ sep @ py_join sep (y # ys)"

text \<open>
  \<^verbatim>\<open>range(0, stop, step)\<close>: a zero step raises \<^verbatim>\<open>ValueError\<close>, a negative step from 0
  to a non-negative stop is empty, a positive step counts up while below \<open>stop\<close>.
\<close>

function range_up :: "nat \<Rightarrow> nat \<Rightarrow> nat \<Rightarrow> nat list" where
  "range_up i stop step = (if step = 0 \<or> stop \<le> i then [] else i # range_up (i + step) stop step)"
  by pat_completeness auto
termination
  by (relation "measure (\<lambda>(i, stop, step). stop - i)") auto

declare range_up.simps [simp del]

definition py_range :: "nat \<Rightarrow> int \<Rightarrow> error + nat list" where
  "py_range stop step =
     (if step = 0 then Inl ValueError
      else if step < 0 then Inr []
      else Inr (range_up 0 stop (nat step)))"

text \<open>\<^verbatim>\<open>xs[i:j]\<close> for \<open>0 \<le> i\<close> and \<open>0 \<le> j\<close>: a fresh list, clipped at the end of \<open>xs\<close>.\<close>

definition py_slice :: "'a list \<Rightarrow> nat \<Rightarrow> nat \<Rightarrow> 'a list" where
  "py_slice xs i j = take (j - i) (drop i xs)"

subsection \<open>The frame: the caller's data and the list under construction\<close>

record frame =
  data :: "byte list"
  output_list :: "string list"

text \<open>\<^verbatim>\<open>output.append(line)\<close>.\<close>

definition append_line :: "string \<Rightarrow> frame \<Rightarrow> frame" where
  "append_line line fr = fr\<lparr>output_list := output_list fr @ [line]\<rparr>"

text \<open>\<^verbatim>\<open>output[-1] += s\<close>; on an empty list the index raises.\<close>

definition extend_last :: "string \<Rightarrow> frame \<Rightarrow> error + frame" where
  "extend_last s fr =
     (if output_list fr = [] then Inl IndexError
      else Inr (fr\<lparr>output_list := (output_list fr)[length (output_list fr) - 1 := last (output_list fr) @ s]\<rparr>))"

subsection \<open>\<^verbatim>\<open>binary_to_c_array\<close>: the escaped string style\<close>

definition length_comment :: "nat \<Rightarrow> string" where
  "length_comment n = ''/* Length: '' @ str_nat n @ '' bytes */''"

definition escape_value :: "byte \<Rightarrow> string" where
  "escape_value b = backslash # CHR ''x'' # fmt_02X (unat b)"

definition escaped_line :: "string list \<Rightarrow> nat \<Rightarrow> nat \<Rightarrow> string" where
  "escaped_line hex_values bytes_per_line i =
     (let line_values = py_slice hex_values i (i + bytes_per_line);
          line_content = concat line_values
      in if i = 0 then ''    '' @ [dquote] @ line_content @ [dquote]
         else ''    '' @ [dquote] @ line_content @ [dquote])"

definition escaped_step :: "string list \<Rightarrow> nat \<Rightarrow> frame \<Rightarrow> nat \<Rightarrow> frame" where
  "escaped_step hex_values bytes_per_line fr i =
     append_line (escaped_line hex_values bytes_per_line i) fr"

text \<open>
  The body of the function on the frame. The result is the returned string together with
  the caller's \<^verbatim>\<open>data\<close> as the call leaves it.
\<close>

definition run_binary_to_c_array :: "byte list \<Rightarrow> string \<Rightarrow> int \<Rightarrow> error + (string \<times> byte list)" where
  "run_binary_to_c_array d array_name bytes_per_line =
     (if d = [] then Inr (''unsigned char '' @ array_name @ ''[] = '' @ [dquote, dquote] @ '';'', d)
      else
        let hex_values = map escape_value d;
            fr0 = \<lparr>data = d, output_list = []\<rparr>;
            fr1 = append_line (''unsigned char '' @ array_name @ ''[] ='') fr0
        in case py_range (length hex_values) bytes_per_line of
             Inl e \<Rightarrow> Inl e
           | Inr idxs \<Rightarrow>
               let fr2 = foldl (escaped_step hex_values (nat bytes_per_line)) fr1 idxs
               in case extend_last '';'' fr2 of
                    Inl e \<Rightarrow> Inl e
                  | Inr fr3 \<Rightarrow>
                      let fr4 = append_line (length_comment (length (data fr3))) fr3
                      in Inr (py_join [newline] (output_list fr4), data fr4))"

definition binary_to_c_array :: "byte list \<Rightarrow> string \<Rightarrow> int \<Rightarrow> error + string" where
  "binary_to_c_array d array_name bytes_per_line =
     map_sum id fst (run_binary_to_c_array d array_name bytes_per_line)"

subsection \<open>\<^verbatim>\<open>binary_to_c_array_multiline\<close>: the hex array style\<close>

definition hex_value :: "byte \<Rightarrow> string" where
  "hex_value b = ''0x'' @ fmt_02X (unat b)"

definition hex_line :: "byte list \<Rightarrow> nat \<Rightarrow> nat \<Rightarrow> string" where
  "hex_line d bytes_per_line i =
     (let line_data = py_slice d i (i + bytes_per_line);
          hex_values = map hex_value line_data;
          line = ''    '' @ py_join '', '' hex_values
      in if i + bytes_per_line < length d then line @ '','' else line)"

definition multiline_step :: "nat \<Rightarrow> frame \<Rightarrow> nat \<Rightarrow> frame" where
  "multiline_step bytes_per_line fr i = append_line (hex_line (data fr) bytes_per_line i) fr"

definition run_binary_to_c_array_multiline ::
    "byte list \<Rightarrow> string \<Rightarrow> int \<Rightarrow> error + (string \<times> byte list)" where
  "run_binary_to_c_array_multiline d array_name bytes_per_line =
     (if d = [] then Inr (''unsigned char '' @ array_name @ ''[] = {};'', d)
      else
        let fr0 = \<lparr>data = d, output_list = []\<rparr>;
            fr1 = append_line (''unsigned char '' @ array_name @ ''[] = {'') fr0
        in case py_range (length (data fr1)) bytes_per_line of
             Inl e \<Rightarrow> Inl e
           | Inr idxs \<Rightarrow>
               let fr2 = foldl (multiline_step (nat bytes_per_line)) fr1 idxs;
                   fr3 = append_line ''};'' fr2;
                   fr4 = append_line (length_comment (length (data fr3))) fr3
               in Inr (py_join [newline] (output_list fr4), data fr4))"

definition binary_to_c_array_multiline :: "byte list \<Rightarrow> string \<Rightarrow> int \<Rightarrow> error + string" where
  "binary_to_c_array_multiline d array_name bytes_per_line =
     map_sum id fst (run_binary_to_c_array_multiline d array_name bytes_per_line)"

subsection \<open>An invocation in a store of objects\<close>

text \<open>
  What a call can see and what it leaves behind is a matter of the objects it touches, so
  both functions are embedded a second time with their objects in a store: a list of
  objects, an address being an index into it. The caller's \<^verbatim>\<open>data\<close> is an object of the store
  and is passed by its address; \<^verbatim>\<open>output = []\<close> creates a new object at the end of the store;
  \<^verbatim>\<open>append\<close> and \<^verbatim>\<open>+=\<close> update that object in place; \<^verbatim>\<open>len(data)\<close>, the iteration over
  \<^verbatim>\<open>data\<close> and the slices read the data object where the statement stands. The name and the
  width are immutable values. The lists \<^verbatim>\<open>hex_values\<close> are built once, never updated and
  never leave the call, so they stay values. An address that holds no object of the expected
  kind is the fault \<open>NoSuchObject\<close>; an exception of the source is \<open>Raised\<close>. The store
  that an invocation returns is the store the caller continues with.
\<close>

type_synonym addr = nat

datatype obj = Bytes "byte list" | Lines "string list"

type_synonym heap = "obj list"

datatype fault = Raised error | NoSuchObject

definition then_do :: "fault + 'a \<Rightarrow> ('a \<Rightarrow> fault + 'b) \<Rightarrow> fault + 'b" where
  "then_do r f = (case r of Inl e \<Rightarrow> Inl e | Inr x \<Rightarrow> f x)"

definition lift_error :: "error + 'a \<Rightarrow> fault + 'a" where
  "lift_error r = (case r of Inl e \<Rightarrow> Inl (Raised e) | Inr x \<Rightarrow> Inr x)"

text \<open>A new object: it gets the next address, the objects before it keep theirs.\<close>

definition alloc :: "obj \<Rightarrow> heap \<Rightarrow> addr \<times> heap" where
  "alloc ob h = (length h, h @ [ob])"

definition get_bytes :: "heap \<Rightarrow> addr \<Rightarrow> fault + byte list" where
  "get_bytes h a =
     (if a < length h then (case h ! a of Bytes d \<Rightarrow> Inr d | Lines ls \<Rightarrow> Inl NoSuchObject)
      else Inl NoSuchObject)"

definition get_lines :: "heap \<Rightarrow> addr \<Rightarrow> fault + string list" where
  "get_lines h a =
     (if a < length h then (case h ! a of Lines ls \<Rightarrow> Inr ls | Bytes d \<Rightarrow> Inl NoSuchObject)
      else Inl NoSuchObject)"

text \<open>\<^verbatim>\<open>output.append(line)\<close> and \<^verbatim>\<open>output[-1] += s\<close> on the list at an address.\<close>

definition heap_append :: "addr \<Rightarrow> string \<Rightarrow> heap \<Rightarrow> fault + heap" where
  "heap_append a line h =
     then_do (get_lines h a) (\<lambda>ls. Inr (h[a := Lines (ls @ [line])]))"

definition heap_extend_last :: "addr \<Rightarrow> string \<Rightarrow> heap \<Rightarrow> fault + heap" where
  "heap_extend_last a s h =
     then_do (get_lines h a) (\<lambda>ls.
       if ls = [] then Inl (Raised IndexError)
       else Inr (h[a := Lines (ls[length ls - 1 := last ls @ s])]))"

text \<open>The \<^verbatim>\<open>for\<close> loop: one step per index, the store handed on, a fault ends it.\<close>

fun fold_steps :: "(heap \<Rightarrow> nat \<Rightarrow> fault + heap) \<Rightarrow> heap \<Rightarrow> nat list \<Rightarrow> fault + heap" where
  "fold_steps f h [] = Inr h"
| "fold_steps f h (i # idxs) = then_do (f h i) (\<lambda>h'. fold_steps f h' idxs)"

definition escaped_heap_step :: "addr \<Rightarrow> string list \<Rightarrow> nat \<Rightarrow> heap \<Rightarrow> nat \<Rightarrow> fault + heap" where
  "escaped_heap_step output_ref hex_values bytes_per_line h i =
     heap_append output_ref (escaped_line hex_values bytes_per_line i) h"

definition invoke_binary_to_c_array :: "heap \<Rightarrow> addr \<Rightarrow> string \<Rightarrow> int \<Rightarrow> fault + (string \<times> heap)" where
  "invoke_binary_to_c_array h data_ref array_name bytes_per_line =
     then_do (get_bytes h data_ref) (\<lambda>d.
       if d = [] then Inr (''unsigned char '' @ array_name @ ''[] = '' @ [dquote, dquote] @ '';'', h)
       else
         let hex_values = map escape_value d;
             (output_ref, h0) = alloc (Lines []) h
         in then_do (heap_append output_ref (''unsigned char '' @ array_name @ ''[] ='') h0) (\<lambda>h1.
            then_do (lift_error (py_range (length hex_values) bytes_per_line)) (\<lambda>idxs.
            then_do (fold_steps (escaped_heap_step output_ref hex_values (nat bytes_per_line)) h1 idxs) (\<lambda>h2.
            then_do (heap_extend_last output_ref '';'' h2) (\<lambda>h3.
            then_do (get_bytes h3 data_ref) (\<lambda>d3.
            then_do (heap_append output_ref (length_comment (length d3)) h3) (\<lambda>h4.
            then_do (get_lines h4 output_ref) (\<lambda>ls.
            Inr (py_join [newline] ls, h4)))))))))"

definition multiline_heap_step :: "addr \<Rightarrow> addr \<Rightarrow> nat \<Rightarrow> heap \<Rightarrow> nat \<Rightarrow> fault + heap" where
  "multiline_heap_step data_ref output_ref bytes_per_line h i =
     then_do (get_bytes h data_ref) (\<lambda>d. heap_append output_ref (hex_line d bytes_per_line i) h)"

definition invoke_binary_to_c_array_multiline ::
    "heap \<Rightarrow> addr \<Rightarrow> string \<Rightarrow> int \<Rightarrow> fault + (string \<times> heap)" where
  "invoke_binary_to_c_array_multiline h data_ref array_name bytes_per_line =
     then_do (get_bytes h data_ref) (\<lambda>d.
       if d = [] then Inr (''unsigned char '' @ array_name @ ''[] = {};'', h)
       else
         let (output_ref, h0) = alloc (Lines []) h
         in then_do (heap_append output_ref (''unsigned char '' @ array_name @ ''[] = {'') h0) (\<lambda>h1.
            then_do (get_bytes h1 data_ref) (\<lambda>d1.
            then_do (lift_error (py_range (length d1) bytes_per_line)) (\<lambda>idxs.
            then_do (fold_steps (multiline_heap_step data_ref output_ref (nat bytes_per_line)) h1 idxs) (\<lambda>h2.
            then_do (heap_append output_ref ''};'' h2) (\<lambda>h3.
            then_do (get_bytes h3 data_ref) (\<lambda>d3.
            then_do (heap_append output_ref (length_comment (length d3)) h3) (\<lambda>h4.
            then_do (get_lines h4 output_ref) (\<lambda>ls.
            Inr (py_join [newline] ls, h4))))))))))"

subsection \<open>Reading the output back\<close>

text \<open>
  The source only writes; it has no reader. The round-trip properties speak of re-parsing
  the tokens of the output, and the readers below say what that means: they take the text
  of a declaration and recover the bytes of its initializer. They accept exactly two hex
  digits per value (upper case, as the formatters write them) and answer \<open>None\<close> on
  anything else. Neither reader looks at the array name: both start after the last
  \<^verbatim>\<open>=\<close> of the text.
\<close>

definition hex_val :: "char \<Rightarrow> nat option" where
  "hex_val c =
     (let k = (of_char c :: nat)
      in if 48 \<le> k \<and> k \<le> 57 then Some (k - 48)
         else if 65 \<le> k \<and> k \<le> 70 then Some (k - 55)
         else None)"

definition parse_byte :: "char \<Rightarrow> char \<Rightarrow> byte option" where
  "parse_byte h l =
     (case hex_val h of
        None \<Rightarrow> None
      | Some a \<Rightarrow> (case hex_val l of None \<Rightarrow> None | Some b \<Rightarrow> Some (of_nat (16 * a + b))))"

text \<open>One \<^verbatim>\<open>0xHH\<close> token.\<close>

fun parse_hex_token :: "string \<Rightarrow> byte option" where
  "parse_hex_token [z, x, h, l] =
     (if z = CHR ''0'' \<and> x = CHR ''x'' then parse_byte h l else None)"
| "parse_hex_token _ = None"

definition is_space :: "char \<Rightarrow> bool" where
  "is_space c = (c = CHR '' '' \<or> c = newline)"

definition strip :: "string \<Rightarrow> string" where
  "strip s = rev (dropWhile is_space (rev (dropWhile is_space s)))"

text \<open>\<^verbatim>\<open>s.split(c)\<close> for a one-character separator: never empty, pieces free of \<open>c\<close>.\<close>

fun split_on :: "char \<Rightarrow> string \<Rightarrow> string list" where
  "split_on c [] = [[]]"
| "split_on c (x # xs) =
     (if x = c then [] # split_on c xs
      else (case split_on c xs of [] \<Rightarrow> [[x]] | y # ys \<Rightarrow> (x # y) # ys))"

definition split_lines :: "string \<Rightarrow> string list" where
  "split_lines s = split_on newline s"

text \<open>The initializer of a declaration: what follows its last \<^verbatim>\<open>=\<close>.\<close>

definition initializer :: "string \<Rightarrow> string" where
  "initializer s = rev (takeWhile (\<lambda>c. c \<noteq> CHR ''='') (rev s))"

text \<open>The text between the initializer's opening brace and the next closing brace.\<close>

definition brace_body :: "string \<Rightarrow> string" where
  "brace_body s =
     takeWhile (\<lambda>c. c \<noteq> CHR ''}'') (drop 1 (dropWhile (\<lambda>c. c \<noteq> CHR ''{'') (initializer s)))"

text \<open>The value lines of a hex array: the lines of the brace body that are not blank.\<close>

definition value_lines :: "string \<Rightarrow> string list" where
  "value_lines s = filter (\<lambda>l. strip l \<noteq> []) (split_lines (brace_body s))"

text \<open>
  One value line: surrounding blanks and one trailing comma are dropped, the rest is split at
  the commas and every piece, stripped, must be a \<^verbatim>\<open>0xHH\<close> token.
\<close>

definition parse_value_line :: "string \<Rightarrow> byte list option" where
  "parse_value_line l =
     (let t = strip l;
          t' = (if t \<noteq> [] \<and> last t = CHR '','' then butlast t else t)
      in those (map (\<lambda>p. parse_hex_token (strip p)) (split_on (CHR '','') t')))"

definition reparse_hex_array :: "string \<Rightarrow> byte list option" where
  "reparse_hex_array s = map_option concat (those (map parse_value_line (value_lines s)))"

text \<open>
  The escaped string style: the text inside the double quotes of the initializer, the
  adjacent literals concatenated as the C compiler does, read as a run of \<^verbatim>\<open>\xHH\<close>
  escapes.
\<close>

fun quoted_text :: "bool \<Rightarrow> string \<Rightarrow> string" where
  "quoted_text inside [] = []"
| "quoted_text inside (c # cs) =
     (if c = dquote then quoted_text (\<not> inside) cs
      else if inside then c # quoted_text inside cs
      else quoted_text inside cs)"

fun parse_escapes :: "string \<Rightarrow> byte list option" where
  "parse_escapes [] = Some []"
| "parse_escapes (b # x # h # l # rest) =
     (if b = backslash \<and> x = CHR ''x'' then
        (case parse_byte h l of
           None \<Rightarrow> None
         | Some v \<Rightarrow> map_option ((#) v) (parse_escapes rest))
      else None)"
| "parse_escapes _ = None"

definition reparse_escaped :: "string \<Rightarrow> byte list option" where
  "reparse_escaped s = parse_escapes (quoted_text False (initializer s))"

section \<open>Facts about the embedding\<close>

subsection \<open>The frame and the closed form of both runs\<close>

lemma data_append_line: "data (append_line l fr) = data fr"
  by (simp add: append_line_def)

lemma output_append_line: "output_list (append_line l fr) = output_list fr @ [l]"
  by (simp add: append_line_def)

lemma data_foldl_escaped_step: "data (foldl (escaped_step hv w) fr idxs) = data fr"
  by (induction idxs arbitrary: fr) (simp_all add: escaped_step_def data_append_line)

lemma output_foldl_escaped_step:
  "output_list (foldl (escaped_step hv w) fr idxs) = output_list fr @ map (escaped_line hv w) idxs"
  by (induction idxs arbitrary: fr) (simp_all add: escaped_step_def output_append_line)

lemma data_foldl_multiline_step: "data (foldl (multiline_step w) fr idxs) = data fr"
  by (induction idxs arbitrary: fr) (simp_all add: multiline_step_def data_append_line)

lemma output_foldl_multiline_step:
  "output_list (foldl (multiline_step w) fr idxs) = output_list fr @ map (hex_line (data fr) w) idxs"
  by (induction idxs arbitrary: fr)
     (simp_all add: multiline_step_def output_append_line data_append_line)

lemma py_range_pos: "0 < w \<Longrightarrow> py_range n w = Inr (range_up 0 n (nat w))"
  by (simp add: py_range_def)

lemma range_up_Cons: "0 < w \<Longrightarrow> i < n \<Longrightarrow> range_up i n w = i # range_up (i + w) n w"
  by (subst range_up.simps) simp

lemma range_up_Nil: "n \<le> i \<Longrightarrow> range_up i n w = []"
  by (subst range_up.simps) simp

text \<open>The lines of the escaped style after the semicolon has been added.\<close>

lemma data_output_update: "data (fr\<lparr>output_list := xs\<rparr>) = data fr"
  by simp

lemma output_output_update: "output_list (fr\<lparr>output_list := xs\<rparr>) = xs"
  by simp

lemma extend_last_snoc:
  "output_list fr = xs @ [x] \<Longrightarrow> extend_last s fr = Inr (fr\<lparr>output_list := xs @ [x @ s]\<rparr>)"
  by (simp add: extend_last_def)

lemma run_escaped_nonempty:
  assumes "d \<noteq> []" and "0 < w"
  shows "run_binary_to_c_array d name w =
    Inr (py_join [newline]
          ((''unsigned char '' @ name @ ''[] ='') #
            butlast (map (escaped_line (map escape_value d) (nat w)) (range_up 0 (length d) (nat w))) @
            [last (map (escaped_line (map escape_value d) (nat w)) (range_up 0 (length d) (nat w))) @ '';'',
             length_comment (length d)]), d)"
proof -
  let ?L = "map (escaped_line (map escape_value d) (nat w)) (range_up 0 (length d) (nat w))"
  let ?h = "''unsigned char '' @ name @ ''[] =''"
  let ?fr2 = "foldl (escaped_step (map escape_value d) (nat w)) (append_line ?h \<lparr>data = d, output_list = []\<rparr>)
       (range_up 0 (length d) (nat w))"
  have ne: "?L \<noteq> []"
    using assms by (simp add: range_up_Cons)
  have out2: "output_list ?fr2 = (?h # butlast ?L) @ [last ?L]"
    using ne by (simp add: output_foldl_escaped_step output_append_line)
  have d2: "data ?fr2 = d"
    by (simp add: data_foldl_escaped_step data_append_line)
  have ext: "extend_last '';'' ?fr2 = Inr (?fr2\<lparr>output_list := (?h # butlast ?L) @ [last ?L @ '';'']\<rparr>)"
    by (rule extend_last_snoc [OF out2])
  have "run_binary_to_c_array d name w =
      Inr (py_join [newline] (((?h # butlast ?L) @ [last ?L @ '';'']) @
             [length_comment (length d)]), d)"
    unfolding run_binary_to_c_array_def Let_def
    by (simp only: if_not_P [OF assms(1)] length_map py_range_pos [OF assms(2)] sum.case ext
        output_append_line data_append_line d2 data_output_update output_output_update)
  then show ?thesis by simp
qed

lemma run_multiline_nonempty:
  assumes "d \<noteq> []" and "0 < w"
  shows "run_binary_to_c_array_multiline d name w =
    Inr (py_join [newline]
          ((''unsigned char '' @ name @ ''[] = {'') #
            map (hex_line d (nat w)) (range_up 0 (length d) (nat w)) @
            [''};'', length_comment (length d)]), d)"
  using assms unfolding run_binary_to_c_array_multiline_def Let_def
  by (simp add: py_range_pos output_foldl_multiline_step data_foldl_multiline_step
      output_append_line data_append_line)

lemma run_multiline_ranged:
  assumes "d \<noteq> []" and "py_range (length d) w = Inr idxs"
  shows "run_binary_to_c_array_multiline d name w =
    Inr (py_join [newline]
          ((''unsigned char '' @ name @ ''[] = {'') #
            map (hex_line d (nat w)) idxs @ [''};'', length_comment (length d)]), d)"
  using assms unfolding run_binary_to_c_array_multiline_def Let_def
  by (simp add: output_foldl_multiline_step data_foldl_multiline_step
      output_append_line data_append_line)

lemma py_range_nonzero: "w \<noteq> 0 \<Longrightarrow> \<exists>idxs. py_range n w = Inr idxs"
  by (simp add: py_range_def)

lemma py_range_zero: "py_range n 0 = Inl ValueError"
  by (simp add: py_range_def)

lemma py_join_snoc: "xs \<noteq> [] \<Longrightarrow> py_join sep (xs @ [y]) = py_join sep xs @ sep @ y"
  by (induction sep xs rule: py_join.induct) simp_all

lemma py_join_Cons: "ys \<noteq> [] \<Longrightarrow> py_join sep (x # ys) = x @ sep @ py_join sep ys"
  by (cases ys) simp_all

lemma run_escaped_empty:
  "run_binary_to_c_array [] name w = Inr (''unsigned char '' @ name @ ''[] = '' @ [dquote, dquote] @ '';'', [])"
  by (simp add: run_binary_to_c_array_def)

lemma run_multiline_empty:
  "run_binary_to_c_array_multiline [] name w = Inr (''unsigned char '' @ name @ ''[] = {};'', [])"
  by (simp add: run_binary_to_c_array_multiline_def)

lemma run_escaped_zero: "d \<noteq> [] \<Longrightarrow> run_binary_to_c_array d name 0 = Inl ValueError"
  by (simp add: run_binary_to_c_array_def py_range_zero)

lemma run_multiline_zero: "d \<noteq> [] \<Longrightarrow> run_binary_to_c_array_multiline d name 0 = Inl ValueError"
  by (simp add: run_binary_to_c_array_multiline_def py_range_zero data_append_line)

lemma run_multiline_nonzero:
  assumes "d \<noteq> []" and "w \<noteq> 0"
  shows "\<exists>body. run_binary_to_c_array_multiline d name w = Inr (body @ [newline] @ length_comment (length d), d)"
proof -
  from assms(2) obtain idxs where r: "py_range (length d) w = Inr idxs"
    using py_range_nonzero by blast
  let ?ls = "(''unsigned char '' @ name @ ''[] = {'') # map (hex_line d (nat w)) idxs @ [''};'']"
  have "run_binary_to_c_array_multiline d name w =
      Inr (py_join [newline] (?ls @ [length_comment (length d)]), d)"
    using run_multiline_ranged [OF assms(1) r] by simp
  also have "py_join [newline] (?ls @ [length_comment (length d)]) =
      py_join [newline] ?ls @ [newline] @ length_comment (length d)"
    by (rule py_join_snoc) simp
  finally show ?thesis by blast
qed

lemma run_escaped_nonzero:
  assumes "d \<noteq> []" and "w \<noteq> 0"
  shows "\<exists>s. run_binary_to_c_array d name w = Inr (s, d)"
proof -
  from assms(2) obtain idxs where r: "py_range (length d) w = Inr idxs"
    using py_range_nonzero by blast
  let ?fr1 = "append_line (''unsigned char '' @ name @ ''[] ='') \<lparr>data = d, output_list = []\<rparr>"
  let ?fr2 = "foldl (escaped_step (map escape_value d) (nat w)) ?fr1 idxs"
  have "output_list ?fr2 \<noteq> []"
    by (simp add: output_foldl_escaped_step output_append_line)
  then have ext: "extend_last '';'' ?fr2 =
      Inr (?fr2\<lparr>output_list := (output_list ?fr2)[length (output_list ?fr2) - 1 := last (output_list ?fr2) @ '';'']\<rparr>)"
    by (simp only: extend_last_def if_False)
  have d2: "data ?fr2 = d"
    by (simp add: data_foldl_escaped_step data_append_line)
  show ?thesis
    unfolding run_binary_to_c_array_def Let_def
    by (simp only: if_not_P [OF assms(1)] length_map r sum.case ext
        data_append_line d2 data_output_update) blast
qed

subsection \<open>What a run leaves behind, and when it raises\<close>

lemma run_escaped_data:
  assumes "run_binary_to_c_array d name w = Inr (s, d1)"
  shows "d1 = d"
proof (cases "d = []")
  case True
  with assms show ?thesis by (simp add: run_escaped_empty)
next
  case ne: False
  show ?thesis
  proof (cases "w = 0")
    case True
    with ne assms show ?thesis by (simp add: run_escaped_zero)
  next
    case False
    with ne obtain s' where "run_binary_to_c_array d name w = Inr (s', d)"
      using run_escaped_nonzero by blast
    with assms show ?thesis by simp
  qed
qed

lemma run_multiline_data:
  assumes "run_binary_to_c_array_multiline d name w = Inr (s, d1)"
  shows "d1 = d"
proof (cases "d = []")
  case True
  with assms show ?thesis by (simp add: run_multiline_empty)
next
  case ne: False
  show ?thesis
  proof (cases "w = 0")
    case True
    with ne assms show ?thesis by (simp add: run_multiline_zero)
  next
    case False
    with ne obtain b where
      "run_binary_to_c_array_multiline d name w = Inr (b @ [newline] @ length_comment (length d), d)"
      using run_multiline_nonzero by blast
    with assms show ?thesis by simp
  qed
qed

lemma escaped_raises_iff: "(\<exists>e. binary_to_c_array d name w = Inl e) \<longleftrightarrow> d \<noteq> [] \<and> w = 0"
proof (cases "d = []")
  case True
  then show ?thesis by (simp add: binary_to_c_array_def run_escaped_empty)
next
  case ne: False
  show ?thesis
  proof (cases "w = 0")
    case True
    with ne show ?thesis by (simp add: binary_to_c_array_def run_escaped_zero)
  next
    case False
    with ne obtain s where "run_binary_to_c_array d name w = Inr (s, d)"
      using run_escaped_nonzero by blast
    with ne False show ?thesis by (simp add: binary_to_c_array_def)
  qed
qed

lemma multiline_raises_iff:
  "(\<exists>e. binary_to_c_array_multiline d name w = Inl e) \<longleftrightarrow> d \<noteq> [] \<and> w = 0"
proof (cases "d = []")
  case True
  then show ?thesis by (simp add: binary_to_c_array_multiline_def run_multiline_empty)
next
  case ne: False
  show ?thesis
  proof (cases "w = 0")
    case True
    with ne show ?thesis by (simp add: binary_to_c_array_multiline_def run_multiline_zero)
  next
    case False
    with ne obtain b where
      "run_binary_to_c_array_multiline d name w = Inr (b @ [newline] @ length_comment (length d), d)"
      using run_multiline_nonzero by blast
    with ne False show ?thesis by (simp add: binary_to_c_array_multiline_def)
  qed
qed

subsection \<open>Digits and characters\<close>

lemma hex_val_hex_digit: "k < 16 \<Longrightarrow> hex_val (hex_digit k) = Some k"
  unfolding hex_digit_def hex_val_def
  apply (simp add: less_Suc_eq eval_nat_numeral)
  apply (elim disjE; simp)
  done

lemma hex_upper_small: "n < 16 \<Longrightarrow> hex_upper n = [hex_digit n]"
  by (subst hex_upper.simps) simp

lemma hex_upper_byte: "16 \<le> n \<Longrightarrow> n < 256 \<Longrightarrow> hex_upper n = [hex_digit (n div 16), hex_digit (n mod 16)]"
  by (subst hex_upper.simps) (simp add: hex_upper_small less_mult_imp_div_less)

lemma hex_digit_0: "hex_digit 0 = CHR ''0''"
  by (simp add: hex_digit_def)

lemma fmt_02X_byte: "n < 256 \<Longrightarrow> fmt_02X n = [hex_digit (n div 16), hex_digit (n mod 16)]"
  by (cases "n < 16") (simp_all add: fmt_02X_def hex_upper_small hex_upper_byte hex_digit_0)

lemma unat_byte_less: "unat (b :: byte) < 256"
  using unsigned_less [of b] by simp

lemma fmt_02X_unat: "fmt_02X (unat (b :: byte)) = [hex_digit (unat b div 16), hex_digit (unat b mod 16)]"
  by (rule fmt_02X_byte) (rule unat_byte_less)

lemma parse_byte_digits:
  "parse_byte (hex_digit (unat (b :: byte) div 16)) (hex_digit (unat b mod 16)) = Some b"
proof -
  have "unat b div 16 < 16"
    using unat_byte_less [of b] by (simp add: less_mult_imp_div_less)
  then show ?thesis
    by (simp add: parse_byte_def hex_val_hex_digit)
qed

lemma hex_value_chars: "hex_value b = [CHR ''0'', CHR ''x'', hex_digit (unat b div 16), hex_digit (unat b mod 16)]"
  by (simp add: hex_value_def fmt_02X_unat)

lemma escape_value_chars: "escape_value b = [backslash, CHR ''x'', hex_digit (unat b div 16), hex_digit (unat b mod 16)]"
  by (simp add: escape_value_def fmt_02X_unat)

lemma parse_hex_token_hex_value: "parse_hex_token (hex_value b) = Some b"
  by (simp add: hex_value_chars parse_byte_digits)

text \<open>Characters that are neither digits nor letters are no hex digits.\<close>

lemma hex_val_specials:
  "hex_val (CHR '' '') = None" "hex_val newline = None" "hex_val (CHR '','') = None"
  "hex_val (CHR ''='') = None" "hex_val (CHR ''{'') = None" "hex_val (CHR ''}'') = None"
  "hex_val dquote = None" "hex_val backslash = None" "hex_val (CHR '';'') = None"
  "hex_val (CHR ''x'') = None"
  by (simp_all add: hex_val_def newline_def dquote_def backslash_def)

lemma hex_digit_not_special:
  assumes "k < 16" and "hex_val c = None"
  shows "hex_digit k \<noteq> c"
  using assms hex_val_hex_digit [of k] by auto

lemma str_nat_digits: "set (str_nat n) \<subseteq> set ''0123456789''"
proof (induction n rule: str_nat.induct)
  case (1 n)
  have m: "''0123456789'' ! k \<in> set ''0123456789''" if "k < 10" for k
    using that by (intro nth_mem) simp
  show ?case
  proof (cases "n < 10")
    case True
    then show ?thesis using m [of n] by (subst str_nat.simps) simp
  next
    case False
    have "n mod 10 < 10" by simp
    with False 1 m [of "n mod 10"] show ?thesis
      by (subst str_nat.simps) simp
  qed
qed

lemma str_nat_no_special:
  assumes "of_char c < (48 :: nat) \<or> (57 :: nat) < of_char c"
  shows "c \<notin> set (str_nat n)"
proof
  assume "c \<in> set (str_nat n)"
  then have "c \<in> set ''0123456789''"
    using str_nat_digits by blast
  with assms show False by auto
qed

lemma length_comment_no_special:
  assumes "c = newline \<or> c = dquote \<or> c = CHR ''='' \<or> c = CHR ''{'' \<or> c = CHR ''}''"
  shows "c \<notin> set (length_comment n)"
proof -
  have "c \<notin> set (str_nat n)"
    using assms by (intro str_nat_no_special) (auto simp: newline_def dquote_def)
  moreover have "c \<notin> set ''/* Length: ''" "c \<notin> set '' bytes */''"
    using assms by (auto simp: newline_def dquote_def)
  ultimately show ?thesis
    by (simp only: length_comment_def set_append Un_iff) blast
qed

subsection \<open>The index range and the chunks it cuts\<close>

lemma range_up_less: "k \<in> set (range_up i n w) \<Longrightarrow> k < n"
proof (induction i n w rule: range_up.induct)
  case (1 i stop step)
  then show ?case
    by (subst (asm) (2) range_up.simps) (auto split: if_splits)
qed

lemma length_range_up: "0 < w \<Longrightarrow> length (range_up i n w) = (n - i + w - 1) div w"
proof (induction i n w rule: range_up.induct)
  case (1 i stop step)
  show ?case
  proof (cases "stop \<le> i")
    case True
    with 1 show ?thesis by (simp add: range_up_Nil)
  next
    case False
    then have lt: "i < stop" by simp
    have ih: "length (range_up (i + step) stop step) = (stop - (i + step) + step - 1) div step"
      using 1 False by simp
    show ?thesis
    proof (cases "i + step \<le> stop")
      case True
      define a where "a = stop - (i + step) + step - 1"
      have "stop - i + step - 1 = a + step"
        using True 1(2) by (simp add: a_def)
      then have "(stop - i + step - 1) div step = (a + step) div step"
        by (simp only:)
      also have "\<dots> = a div step + 1"
        using 1(2) by simp
      finally have "(stop - i + step - 1) div step = (stop - (i + step) + step - 1) div step + 1"
        by (simp only: a_def)
      with ih lt 1(2) show ?thesis by (simp add: range_up_Cons)
    next
      case False
      then have z: "stop - (i + step) = 0" by simp
      have "step \<le> stop - i + step - 1" "stop - i + step - 1 < 2 * step"
        using lt False by simp_all
      then have "(stop - i + step - 1) div step = 1"
        by (metis One_nat_def div_nat_eqI mult.commute mult_2 nat_mult_1_right plus_1_eq_Suc mult_Suc_right)
      with ih z lt 1(2) show ?thesis by (simp add: range_up_Cons)
    qed
  qed
qed

lemma concat_slices:
  "0 < w \<Longrightarrow> concat (map (\<lambda>i. py_slice xs i (i + w)) (range_up i (length xs) w)) = drop i xs"
proof (induction i "length xs" w rule: range_up.induct)
  case (1 i step)
  show ?case
  proof (cases "length xs \<le> i")
    case True
    then show ?thesis by (simp add: range_up_Nil)
  next
    case False
    then have lt: "i < length xs" by simp
    have ih: "concat (map (\<lambda>i. py_slice xs i (i + step)) (range_up (i + step) (length xs) step)) =
        drop (i + step) xs"
      using 1 False by simp
    have "take step (drop i xs) @ drop (i + step) xs = drop i xs"
      by (metis add.commute append_take_drop_id drop_drop)
    with ih lt 1(2) show ?thesis
      by (simp add: range_up_Cons py_slice_def)
  qed
qed

text \<open>Every index but the last leaves more than a full chunk; the last one does not.\<close>

lemma range_up_snoc:
  "0 < w \<Longrightarrow> range_up i n w = ks @ [j] \<Longrightarrow> n \<le> j + w \<and> (\<forall>k \<in> set ks. k + w < n)"
proof (induction i n w arbitrary: ks rule: range_up.induct)
  case (1 i stop step)
  show ?case
  proof (cases "stop \<le> i")
    case True
    with 1(3) show ?thesis by (simp add: range_up_Nil)
  next
    case False
    then have lt: "i < stop" by simp
    then have eq: "i # range_up (i + step) stop step = ks @ [j]"
      using 1(2,3) by (simp add: range_up_Cons)
    show ?thesis
    proof (cases ks)
      case Nil
      with eq have "j = i" "range_up (i + step) stop step = []" by auto
      then have "stop \<le> i + step"
        using 1(2) range_up_Cons [of step "i + step" stop] by (cases "i + step < stop") auto
      with Nil \<open>j = i\<close> show ?thesis by simp
    next
      case (Cons k ks')
      with eq have k: "k = i" and r: "range_up (i + step) stop step = ks' @ [j]" by auto
      have "range_up (i + step) stop step \<noteq> []" using r by simp
      then have "i + step < stop"
        using range_up_Nil [of stop "i + step" step] by (cases "i + step < stop") auto
      moreover have "stop \<le> j + step \<and> (\<forall>k \<in> set ks'. k + step < stop)"
        using 1(1) [OF _ 1(2) r] False 1(2) by simp
      ultimately show ?thesis using Cons k by simp
    qed
  qed
qed

lemma slice_nonempty: "i < length xs \<Longrightarrow> 0 < w \<Longrightarrow> py_slice xs i (i + w) \<noteq> []"
  by (simp add: py_slice_def)

subsection \<open>Splitting and stripping\<close>

lemma split_on_no_sep: "c \<notin> set s \<Longrightarrow> split_on c s = [s]"
  by (induction s) auto

lemma split_on_append: "c \<notin> set a \<Longrightarrow> split_on c (a @ c # b) = a # split_on c b"
  by (induction a) auto

lemma split_on_join:
  "ls \<noteq> [] \<Longrightarrow> \<forall>l \<in> set ls. c \<notin> set l \<Longrightarrow> split_on c (py_join [c] ls) = ls"
proof (induction "[c]" ls rule: py_join.induct)
  case 1
  then show ?case by simp
next
  case (2 x)
  then show ?case by (simp add: split_on_no_sep)
next
  case (3 x y ys)
  then show ?case by (simp add: split_on_append)
qed

lemma strip_indented:
  assumes "t \<noteq> []" and "\<not> is_space (hd t)" and "\<not> is_space (last t)"
  shows "strip (replicate n (CHR '' '') @ t) = t"
proof -
  have a: "dropWhile is_space (replicate n (CHR '' '') @ t) = t"
    using assms(1,2) by (cases t) (simp_all add: dropWhile_append3 is_space_def dropWhile_append)
  have "dropWhile is_space (rev t) = rev t"
    using assms(1,3) by (cases "rev t") (simp_all add: last_rev [symmetric] hd_rev)
  with a show ?thesis by (simp add: strip_def)
qed

lemma strip_Nil: "strip [] = []"
  by (simp add: strip_def)

subsection \<open>Tokens of the hex array style\<close>

lemma hd_py_join: "xs \<noteq> [] \<Longrightarrow> hd xs \<noteq> [] \<Longrightarrow> hd (py_join sep xs) = hd (hd xs)"
  by (induction sep xs rule: py_join.induct) simp_all

lemma last_py_join_aux:
  "xs \<noteq> [] \<Longrightarrow> last xs \<noteq> [] \<Longrightarrow>
   py_join sep xs \<noteq> [] \<and> last (py_join sep xs) = last (last xs)"
  by (induction sep xs rule: py_join.induct) simp_all

lemma last_py_join: "xs \<noteq> [] \<Longrightarrow> last xs \<noteq> [] \<Longrightarrow> last (py_join sep xs) = last (last xs)"
  using last_py_join_aux by blast

lemma py_join_eq_Nil: "py_join sep xs = [] \<Longrightarrow> xs \<noteq> [] \<Longrightarrow> hd xs = []"
  by (induction sep xs rule: py_join.induct) simp_all

lemma set_py_join: "set (py_join sep xs) \<subseteq> set sep \<union> \<Union> (set ` set xs)"
  by (induction sep xs rule: py_join.induct) auto

lemma split_on_join_spaced:
  "toks \<noteq> [] \<Longrightarrow> \<forall>t \<in> set toks. c \<notin> set t \<Longrightarrow> s \<noteq> c \<Longrightarrow>
   split_on c (py_join [c, s] toks) = hd toks # map ((#) s) (tl toks)"
proof (induction "[c, s]" toks rule: py_join.induct)
  case 1
  then show ?case by simp
next
  case (2 x)
  then show ?case by (simp add: split_on_no_sep)
next
  case (3 x y ys)
  then have "split_on c (py_join [c, s] (y # ys)) = y # map ((#) s) ys" by simp
  with 3 show ?case by (simp add: split_on_append)
qed

lemma those_map_Some: "those (map Some xs) = Some xs"
  by (induction xs) simp_all

lemma hex_value_no_special:
  assumes "hex_val c = None" and "c \<noteq> CHR ''x''"
  shows "c \<notin> set (hex_value b)"
proof -
  have "unat b div 16 < 16"
    using unat_byte_less [of b] by (simp add: less_mult_imp_div_less)
  moreover have "c \<noteq> CHR ''0''"
    using assms(1) by (auto simp: hex_val_def)
  moreover have "unat b mod 16 < 16" by simp
  ultimately show ?thesis
    using assms hex_digit_not_special [of "unat b div 16" c]
      hex_digit_not_special [of "unat b mod 16" c]
    by (auto simp: hex_value_chars)
qed

lemma hd_hex_value: "hd (hex_value b) = CHR ''0''"
  by (simp add: hex_value_chars)

lemma last_hex_value: "last (hex_value b) = hex_digit (unat b mod 16)"
  by (simp add: hex_value_chars)

lemma hex_value_not_Nil: "hex_value b \<noteq> []"
  by (simp add: hex_value_chars)

lemma not_space_zero: "\<not> is_space (CHR ''0'')"
  by (simp add: is_space_def newline_def)

lemma not_space_comma: "\<not> is_space (CHR '','')"
  by (simp add: is_space_def newline_def)

lemma not_space_hex_digit: "k < 16 \<Longrightarrow> \<not> is_space (hex_digit k)"
  using hex_digit_not_special [of k "CHR '' ''"] hex_digit_not_special [of k newline]
  by (auto simp: is_space_def hex_val_specials)

lemma strip_hex_value: "strip (hex_value b) = hex_value b"
  using strip_indented [of "hex_value b" 0]
  by (simp add: hd_hex_value last_hex_value hex_value_not_Nil not_space_zero not_space_hex_digit)

lemma strip_spaced_hex_value: "strip (CHR '' '' # hex_value b) = hex_value b"
  using strip_indented [of "hex_value b" 1]
  by (simp add: hd_hex_value last_hex_value hex_value_not_Nil not_space_zero not_space_hex_digit)

text \<open>The joined tokens of a non-empty chunk: first and last character.\<close>

lemma joined_values:
  assumes "chunk \<noteq> []"
  shows "py_join '', '' (map hex_value chunk) \<noteq> []"
    and "hd (py_join '', '' (map hex_value chunk)) = CHR ''0''"
    and "last (py_join '', '' (map hex_value chunk)) = hex_digit (unat (last chunk) mod 16)"
proof -
  let ?toks = "map hex_value chunk"
  have ne: "?toks \<noteq> []" using assms by simp
  have h: "hd ?toks \<noteq> []" using assms by (simp add: hd_map hex_value_not_Nil)
  have l: "last ?toks \<noteq> []" using assms by (simp add: last_map hex_value_not_Nil)
  show "py_join '', '' ?toks \<noteq> []"
    using py_join_eq_Nil [of "'', ''" ?toks] ne h by blast
  show "hd (py_join '', '' ?toks) = CHR ''0''"
    using hd_py_join [OF ne h] assms by (simp add: hd_map hd_hex_value)
  show "last (py_join '', '' ?toks) = hex_digit (unat (last chunk) mod 16)"
    using last_py_join [OF ne l] assms by (simp add: last_map last_hex_value)
qed

lemma parse_joined_values:
  assumes "chunk \<noteq> []"
  shows "those (map (\<lambda>p. parse_hex_token (strip p))
           (split_on (CHR '','') (py_join '', '' (map hex_value chunk)))) = Some chunk"
proof -
  let ?toks = "map hex_value chunk"
  have "\<forall>t \<in> set ?toks. CHR '','' \<notin> set t"
    by (auto simp: hex_value_no_special hex_val_specials)
  then have "split_on (CHR '','') (py_join '', '' ?toks) = hd ?toks # map ((#) (CHR '' '')) (tl ?toks)"
    using assms split_on_join_spaced [of ?toks "CHR '',''" "CHR '' ''"] by simp
  also have "map (\<lambda>p. parse_hex_token (strip p)) \<dots> = map Some chunk"
    using assms
    by (cases chunk)
       (simp_all add: strip_hex_value strip_spaced_hex_value parse_hex_token_hex_value comp_def)
  finally show ?thesis by (simp add: those_map_Some)
qed

lemma hex_line_unfold:
  "hex_line d w i =
     replicate 4 (CHR '' '') @ (py_join '', '' (map hex_value (py_slice d i (i + w))) @
       (if i + w < length d then '','' else []))"
  by (simp add: hex_line_def Let_def eval_nat_numeral)

lemma strip_hex_line:
  assumes "i < length d" and "0 < w"
  shows "strip (hex_line d w i) =
     py_join '', '' (map hex_value (py_slice d i (i + w))) @ (if i + w < length d then '','' else [])"
proof -
  let ?chunk = "py_slice d i (i + w)"
  let ?J = "py_join '', '' (map hex_value ?chunk)"
  let ?t = "?J @ (if i + w < length d then '','' else [])"
  have ne: "?chunk \<noteq> []" using assms by (rule slice_nonempty)
  note j = joined_values [OF ne]
  have "?t \<noteq> []" using j(1) by simp
  moreover have "\<not> is_space (hd ?t)"
    using j(1,2) by (simp add: not_space_zero)
  moreover have "\<not> is_space (last ?t)"
    using j(1,3) by (simp add: not_space_comma not_space_hex_digit)
  ultimately show ?thesis
    unfolding hex_line_unfold by (rule strip_indented)
qed

lemma strip_hex_line_not_Nil: "i < length d \<Longrightarrow> 0 < w \<Longrightarrow> strip (hex_line d w i) \<noteq> []"
  using joined_values(1) [OF slice_nonempty, of i d w] by (simp add: strip_hex_line)

lemma last_hex_line:
  assumes "i < length d" and "0 < w"
  shows "last (hex_line d w i) = CHR '','' \<longleftrightarrow> i + w < length d"
proof -
  let ?chunk = "py_slice d i (i + w)"
  have ne: "?chunk \<noteq> []" using assms by (rule slice_nonempty)
  note j = joined_values [OF ne]
  have "hex_digit (unat (last ?chunk) mod 16) \<noteq> CHR '',''"
    by (rule hex_digit_not_special) (simp_all add: hex_val_specials)
  then show ?thesis
    unfolding hex_line_unfold using j(1,3) by simp
qed

lemma parse_value_line_hex_line:
  assumes "i < length d" and "0 < w"
  shows "parse_value_line (hex_line d w i) = Some (py_slice d i (i + w))"
proof -
  let ?chunk = "py_slice d i (i + w)"
  let ?J = "py_join '', '' (map hex_value ?chunk)"
  have ne: "?chunk \<noteq> []" using assms by (rule slice_nonempty)
  note j = joined_values [OF ne]
  have nc: "last ?J \<noteq> CHR '',''"
    unfolding j(3) by (rule hex_digit_not_special) (simp_all add: hex_val_specials)
  have "(let t = strip (hex_line d w i) in if t \<noteq> [] \<and> last t = CHR '','' then butlast t else t) = ?J"
    using j(1) nc by (simp add: strip_hex_line [OF assms] Let_def)
  then show ?thesis
    unfolding parse_value_line_def Let_def
    using parse_joined_values [OF ne] by (simp add: Let_def)
qed

lemma hex_line_no_special:
  assumes "hex_val c = None" and "c \<noteq> CHR ''x''" and "c \<noteq> CHR '' ''" and "c \<noteq> CHR '',''"
  shows "c \<notin> set (hex_line d w i)"
proof -
  let ?toks = "map hex_value (py_slice d i (i + w))"
  have "c \<notin> set '', '' \<union> \<Union> (set ` set ?toks)"
    using assms by (auto simp: hex_value_no_special)
  then have "c \<notin> set (py_join '', '' ?toks)"
    using set_py_join [of "'', ''" ?toks] by blast
  then show ?thesis
    using assms unfolding hex_line_unfold by simp
qed

subsection \<open>The text of a hex array and its value lines\<close>

lemma takeWhile_until: "c \<notin> set xs \<Longrightarrow> takeWhile (\<lambda>x. x \<noteq> c) (xs @ c # ys) = xs"
  by (induction xs) auto

lemma dropWhile_until: "c \<notin> set xs \<Longrightarrow> dropWhile (\<lambda>x. x \<noteq> c) (xs @ c # ys) = c # ys"
  by (induction xs) auto

lemma initializer_after_eq:
  assumes "CHR ''='' \<notin> set t"
  shows "initializer (p @ CHR ''='' # t) = t"
proof -
  have "takeWhile (\<lambda>c. c \<noteq> CHR ''='') (rev t @ CHR ''='' # rev p) = rev t"
    by (rule takeWhile_until) (use assms in simp)
  then show ?thesis by (simp add: initializer_def)
qed

lemma brace_body_between:
  assumes "initializer s = a @ CHR ''{'' # b @ CHR ''}'' # c"
    and "CHR ''{'' \<notin> set a" and "CHR ''}'' \<notin> set b"
  shows "brace_body s = b"
proof -
  have "dropWhile (\<lambda>c. c \<noteq> CHR ''{'') (a @ CHR ''{'' # b @ CHR ''}'' # c) =
      CHR ''{'' # b @ CHR ''}'' # c"
    by (rule dropWhile_until) (rule assms(2))
  moreover have "takeWhile (\<lambda>c. c \<noteq> CHR ''}'') (b @ CHR ''}'' # c) = b"
    by (rule takeWhile_until) (rule assms(3))
  ultimately show ?thesis
    by (simp add: brace_body_def assms(1))
qed

lemma py_join_lines_no_char:
  assumes "c \<noteq> newline" and "\<forall>l \<in> set ls. c \<notin> set l"
  shows "c \<notin> set (py_join [newline] ls)"
  using set_py_join [of "[newline]" ls] assms by auto

text \<open>The text of a non-empty hex array, cut at the \<^verbatim>\<open>=\<close> of the declaration.\<close>

lemma multiline_text:
  assumes "d \<noteq> []" and "0 < w"
  shows "binary_to_c_array_multiline d name w =
    Inr ((''unsigned char '' @ name @ ''[] '') @ CHR ''='' #
         ('' '' @ CHR ''{'' #
           ([newline] @ py_join [newline] (map (hex_line d (nat w)) (range_up 0 (length d) (nat w))) @
            [newline]) @ CHR ''}'' # ('';'' @ [newline] @ length_comment (length d))))"
proof -
  let ?L = "map (hex_line d (nat w)) (range_up 0 (length d) (nat w))"
  have ne: "?L \<noteq> []"
    using assms by (simp add: range_up_Cons)
  have "py_join [newline] (?L @ [''};'', length_comment (length d)]) =
      py_join [newline] ((?L @ [''};'']) @ [length_comment (length d)])"
    by simp
  also have "\<dots> = py_join [newline] (?L @ [''};'']) @ [newline] @ length_comment (length d)"
    by (rule py_join_snoc) simp
  also have "py_join [newline] (?L @ [''};'']) = py_join [newline] ?L @ [newline] @ ''};''"
    using ne by (rule py_join_snoc)
  finally have j: "py_join [newline] (?L @ [''};'', length_comment (length d)]) =
      (py_join [newline] ?L @ [newline] @ ''};'') @ [newline] @ length_comment (length d)" .
  have "py_join [newline] ((''unsigned char '' @ name @ ''[] = {'') # ?L @ [''};'', length_comment (length d)]) =
      (''unsigned char '' @ name @ ''[] = {'') @ [newline] @
        py_join [newline] (?L @ [''};'', length_comment (length d)])"
    by (rule py_join_Cons) simp
  then show ?thesis
    unfolding binary_to_c_array_multiline_def run_multiline_nonempty [OF assms] j
    by simp
qed

lemma index_in_range: "k \<in> set (range_up 0 (length d) w) \<Longrightarrow> k < length d"
  by (rule range_up_less)

lemma multiline_brace_body:
  assumes "d \<noteq> []" and "0 < w" and "binary_to_c_array_multiline d name w = Inr out"
  shows "brace_body out =
    [newline] @ py_join [newline] (map (hex_line d (nat w)) (range_up 0 (length d) (nat w))) @ [newline]"
proof -
  let ?L = "map (hex_line d (nat w)) (range_up 0 (length d) (nat w))"
  let ?b = "[newline] @ py_join [newline] ?L @ [newline]"
  let ?t = "'' '' @ CHR ''{'' # ?b @ CHR ''}'' # ('';'' @ [newline] @ length_comment (length d))"
  have out: "out = (''unsigned char '' @ name @ ''[] '') @ CHR ''='' # ?t"
    using multiline_text [OF assms(1,2), of name] assms(3) by simp
  have "CHR ''='' \<notin> set (hex_line d (nat w) i)" for i
    by (rule hex_line_no_special) (simp_all add: hex_val_specials)
  then have eqL: "\<forall>l \<in> set ?L. CHR ''='' \<notin> set l"
    by auto
  have "CHR ''}'' \<notin> set (hex_line d (nat w) i)" for i
    by (rule hex_line_no_special) (simp_all add: hex_val_specials)
  then have brL: "\<forall>l \<in> set ?L. CHR ''}'' \<notin> set l"
    by auto
  have eqJ: "CHR ''='' \<notin> set (py_join [newline] ?L)"
    using eqL by (intro py_join_lines_no_char) (simp_all add: newline_def)
  have brJ: "CHR ''}'' \<notin> set (py_join [newline] ?L)"
    using brL by (intro py_join_lines_no_char) (simp_all add: newline_def)
  have "CHR ''='' \<notin> set (length_comment (length d))"
    by (rule length_comment_no_special) simp
  with eqJ have "CHR ''='' \<notin> set ?t"
    by (simp add: newline_def)
  then have init: "initializer out = '' '' @ CHR ''{'' # ?b @ CHR ''}'' # ('';'' @ [newline] @ length_comment (length d))"
    unfolding out by (rule initializer_after_eq)
  show ?thesis
  proof (rule brace_body_between [OF init])
    show "CHR ''{'' \<notin> set '' ''" by simp
    show "CHR ''}'' \<notin> set ?b" using brJ by (simp add: newline_def)
  qed
qed

lemma multiline_body_lines:
  assumes "d \<noteq> []" and "0 < w" and "binary_to_c_array_multiline d name w = Inr out"
  shows "split_lines (brace_body out) =
    [] # map (hex_line d (nat w)) (range_up 0 (length d) (nat w)) @ [[]]"
proof -
  let ?L = "map (hex_line d (nat w)) (range_up 0 (length d) (nat w))"
  have ne: "?L \<noteq> []"
    using assms by (simp add: range_up_Cons)
  have "newline \<notin> set (hex_line d (nat w) i)" for i
    by (rule hex_line_no_special) (simp add: hex_val_specials, simp_all add: newline_def)
  then have nl: "\<forall>l \<in> set ([] # ?L @ [[]]). newline \<notin> set l"
    by auto
  have "py_join [newline] ([] # ?L @ [[]]) = [] @ [newline] @ py_join [newline] (?L @ [[]])"
    by (rule py_join_Cons) simp
  also have "py_join [newline] (?L @ [[]]) = py_join [newline] ?L @ [newline] @ []"
    using ne by (rule py_join_snoc)
  finally have "brace_body out = py_join [newline] ([] # ?L @ [[]])"
    using multiline_brace_body [OF assms] by simp
  then show ?thesis
    unfolding split_lines_def using split_on_join [OF _ nl] by simp
qed

lemma multiline_value_lines:
  assumes "d \<noteq> []" and "0 < w" and "binary_to_c_array_multiline d name w = Inr out"
  shows "value_lines out = map (hex_line d (nat w)) (range_up 0 (length d) (nat w))"
proof -
  let ?L = "map (hex_line d (nat w)) (range_up 0 (length d) (nat w))"
  have "strip (hex_line d (nat w) i) \<noteq> []" if "i \<in> set (range_up 0 (length d) (nat w))" for i
    using that assms(2) by (intro strip_hex_line_not_Nil) (auto dest: index_in_range)
  then have "\<forall>l \<in> set ?L. strip l \<noteq> []"
    by auto
  then have "filter (\<lambda>l. strip l \<noteq> []) ?L = ?L"
    by (simp add: filter_id_conv)
  then show ?thesis
    unfolding value_lines_def multiline_body_lines [OF assms]
    by (simp add: strip_Nil)
qed

lemma ceiling_div_nat:
  assumes "0 < w"
  shows "\<lceil>real n / real w\<rceil> = int ((n + w - 1) div w)"
proof (rule ceiling_unique)
  let ?q = "(n + w - 1) div w"
  have a: "?q * w \<le> n + w - 1"
    by simp
  have b: "n + w - 1 < w + ?q * w"
    using dividend_less_div_times [OF assms, of "n + w - 1"] by simp
  from b have "n \<le> ?q * w"
    using assms by linarith
  then have "real n \<le> real (?q * w)"
    by (simp only: of_nat_le_iff)
  then show "real n / real w \<le> of_int (int ?q)"
    using assms by (simp add: divide_le_eq)
  from a have "?q * w < n + w"
    using assms by linarith
  then have "real (?q * w) < real (n + w)"
    by (simp only: of_nat_less_iff)
  then show "of_int (int ?q) - 1 < real n / real w"
    using assms by (simp add: less_divide_eq algebra_simps)
qed

lemma length_range_up_ceiling:
  assumes "0 < w"
  shows "int (length (range_up 0 n (nat w))) = \<lceil>real n / real_of_int w\<rceil>"
proof -
  have "real_of_int w = real (nat w)" using assms by simp
  then show ?thesis
    using assms by (simp only: ceiling_div_nat length_range_up zero_less_nat_eq) simp
qed

lemma range_up_split_last:
  assumes "0 < w" and "0 < n"
  obtains ks j where "range_up 0 n w = ks @ [j]" and "j < n" and "n \<le> j + w"
    and "\<forall>k \<in> set ks. k + w < n"
proof -
  have "range_up 0 n w \<noteq> []"
    using assms by (simp add: range_up_Cons)
  then obtain ks j where eq: "range_up 0 n w = ks @ [j]"
    by (metis rev_exhaust)
  then have "j \<in> set (range_up 0 n w)" by simp
  then have "j < n" by (rule range_up_less)
  with range_up_snoc [OF assms(1) eq] eq that show thesis by blast
qed

lemma chunks_shape:
  assumes "0 < w" and "d \<noteq> []"
  shows "map (\<lambda>i. py_slice d i (i + w)) (range_up 0 (length d) w) \<noteq> []"
    and "\<forall>c \<in> set (butlast (map (\<lambda>i. py_slice d i (i + w)) (range_up 0 (length d) w))). length c = w"
    and "0 < length (last (map (\<lambda>i. py_slice d i (i + w)) (range_up 0 (length d) w)))"
    and "length (last (map (\<lambda>i. py_slice d i (i + w)) (range_up 0 (length d) w))) \<le> w"
proof -
  from assms obtain ks j where eq: "range_up 0 (length d) w = ks @ [j]"
    and j: "j < length d" "length d \<le> j + w" and ks: "\<forall>k \<in> set ks. k + w < length d"
    using range_up_split_last [of w "length d"] by auto
  show "map (\<lambda>i. py_slice d i (i + w)) (range_up 0 (length d) w) \<noteq> []"
    by (simp add: eq)
  show "\<forall>c \<in> set (butlast (map (\<lambda>i. py_slice d i (i + w)) (range_up 0 (length d) w))). length c = w"
    using ks by (auto simp: eq butlast_append py_slice_def)
  show "0 < length (last (map (\<lambda>i. py_slice d i (i + w)) (range_up 0 (length d) w)))"
    using j assms(1) by (simp add: eq py_slice_def)
  show "length (last (map (\<lambda>i. py_slice d i (i + w)) (range_up 0 (length d) w))) \<le> w"
    by (simp add: eq py_slice_def)
qed

lemma parse_value_lines_chunks:
  assumes "0 < w"
  shows "map parse_value_line (map (hex_line d w) (range_up 0 (length d) w)) =
         map Some (map (\<lambda>i. py_slice d i (i + w)) (range_up 0 (length d) w))"
  using assms by (simp add: parse_value_line_hex_line range_up_less)

lemma last_value_lines:
  assumes "0 < w" and "d \<noteq> []" and "i < length (range_up 0 (length d) w)"
  shows "last (map (hex_line d w) (range_up 0 (length d) w) ! i) = CHR '','' \<longleftrightarrow>
         i + 1 < length (range_up 0 (length d) w)"
proof -
  from assms obtain ks j where eq: "range_up 0 (length d) w = ks @ [j]"
    and j: "j < length d" "length d \<le> j + w" and ks: "\<forall>k \<in> set ks. k + w < length d"
    using range_up_split_last [of w "length d"] by auto
  let ?k = "range_up 0 (length d) w ! i"
  have mem: "?k \<in> set (range_up 0 (length d) w)"
    using assms(3) by simp
  then have lt: "?k < length d" by (rule range_up_less)
  have "?k + w < length d \<longleftrightarrow> i + 1 < length (range_up 0 (length d) w)"
  proof (cases "i < length ks")
    case True
    then have "?k \<in> set ks" by (simp add: eq nth_append)
    with ks True show ?thesis by (simp add: eq)
  next
    case False
    with assms(3) have "i = length ks" by (simp add: eq)
    then have "?k = j" by (simp add: eq)
    with j \<open>i = length ks\<close> show ?thesis by (simp add: eq)
  qed
  then show ?thesis
    using assms(3) last_hex_line [OF lt assms(1)] by simp
qed

text \<open>The empty hex array has no value line, and reads back as no byte.\<close>

lemma multiline_empty_value_lines:
  "value_lines (''unsigned char '' @ name @ ''[] = {};'') = []"
proof -
  have "initializer ((''unsigned char '' @ name @ ''[] '') @ CHR ''='' # '' {};'') = '' {};''"
    by (rule initializer_after_eq) simp
  then have "initializer (''unsigned char '' @ name @ ''[] = {};'') = '' '' @ CHR ''{'' # [] @ CHR ''}'' # '';''"
    by simp
  then have "brace_body (''unsigned char '' @ name @ ''[] = {};'') = []"
    by (rule brace_body_between) simp_all
  then show ?thesis
    by (simp add: value_lines_def split_lines_def strip_Nil)
qed

subsection \<open>Literals of the escaped string style\<close>

lemma escaped_line_unfold:
  "escaped_line hv w i = ''    '' @ dquote # concat (py_slice hv i (i + w)) @ [dquote]"
  by (simp add: escaped_line_def Let_def)

lemma quoted_text_outside: "dquote \<notin> set p \<Longrightarrow> quoted_text False (p @ s) = quoted_text False s"
  by (induction p) auto

lemma quoted_text_inside:
  "dquote \<notin> set c \<Longrightarrow> quoted_text True (c @ dquote # s) = c @ quoted_text False s"
  by (induction c) auto

lemma quoted_text_none: "dquote \<notin> set p \<Longrightarrow> quoted_text False p = []"
  by (induction p) auto

lemma quoted_text_literal:
  assumes "dquote \<notin> set p" and "dquote \<notin> set c"
  shows "quoted_text False (p @ dquote # c @ dquote # s) = c @ quoted_text False s"
  using assms by (simp add: quoted_text_outside quoted_text_inside)

lemma py_join_snoc_extend: "py_join sep (ys @ [y @ s]) = py_join sep (ys @ [y]) @ s"
  by (induction ys) (simp_all add: py_join_Cons)

lemma py_join_extend_last:
  assumes "xs \<noteq> []"
  shows "py_join sep (butlast xs @ [last xs @ s]) = py_join sep xs @ s"
  using py_join_snoc_extend [of sep "butlast xs" "last xs" s] assms by simp

text \<open>The quoted text of a run of lines, each one literal after some blanks.\<close>

lemma quoted_text_lines:
  assumes "cs \<noteq> []" and "\<forall>c \<in> set cs. dquote \<notin> set c" and "dquote \<notin> set p"
  shows "quoted_text False (py_join [newline] (map (\<lambda>c. p @ dquote # c @ [dquote]) cs) @ s) =
         concat cs @ quoted_text False s"
  using assms
proof (induction cs)
  case Nil
  then show ?case by simp
next
  case (Cons c cs)
  show ?case
  proof (cases "cs = []")
    case True
    with Cons.prems show ?thesis
      using quoted_text_literal [of p c s] by simp
  next
    case False
    have j: "py_join [newline] (map (\<lambda>c. p @ dquote # c @ [dquote]) (c # cs)) =
        (p @ dquote # c @ [dquote]) @ [newline] @ py_join [newline] (map (\<lambda>c. p @ dquote # c @ [dquote]) cs)"
      using False by (simp add: py_join_Cons)
    have ih: "quoted_text False (py_join [newline] (map (\<lambda>c. p @ dquote # c @ [dquote]) cs) @ s) =
        concat cs @ quoted_text False s"
      using Cons False by simp
    have "quoted_text False (newline # py_join [newline] (map (\<lambda>c. p @ dquote # c @ [dquote]) cs) @ s) =
        concat cs @ quoted_text False s"
      using ih by (simp add: newline_def dquote_def)
    then show ?thesis
      unfolding j using Cons.prems quoted_text_literal [of p c]
      by simp
  qed
qed

lemma parse_escapes_values: "parse_escapes (concat (map escape_value d)) = Some d"
  by (induction d) (simp_all add: escape_value_chars parse_byte_digits)

lemma escape_value_no_special:
  assumes "hex_val c = None" and "c \<noteq> CHR ''x''" and "c \<noteq> backslash"
  shows "c \<notin> set (escape_value b)"
proof -
  have "unat b div 16 < 16"
    using unat_byte_less [of b] by (simp add: less_mult_imp_div_less)
  moreover have "unat b mod 16 < 16" by simp
  ultimately show ?thesis
    using assms hex_digit_not_special [of "unat b div 16" c]
      hex_digit_not_special [of "unat b mod 16" c]
    by (auto simp: escape_value_chars)
qed

lemma escaped_content_no_special:
  assumes "hex_val c = None" and "c \<noteq> CHR ''x''" and "c \<noteq> backslash"
  shows "c \<notin> set (concat (py_slice (map escape_value d) i j))"
proof -
  have "set (py_slice (map escape_value d) i j) \<subseteq> set (map escape_value d)"
    unfolding py_slice_def by (meson set_take_subset set_drop_subset subset_trans)
  then show ?thesis
    using escape_value_no_special [OF assms] by auto
qed

lemma escaped_line_no_special:
  assumes "hex_val c = None" and "c \<noteq> CHR ''x''" and "c \<noteq> backslash"
    and "c \<noteq> CHR '' ''" and "c \<noteq> dquote"
  shows "c \<notin> set (escaped_line (map escape_value d) w i)"
  using escaped_content_no_special [OF assms(1-3), of d i "i + w"] assms(4,5)
  by (simp add: escaped_line_unfold)

lemma concat_map_concat: "concat (map concat xss) = concat (concat xss)"
  by (induction xss) simp_all

lemma escaped_lines_not_Nil:
  "d \<noteq> [] \<Longrightarrow> 0 < w \<Longrightarrow> map (escaped_line hv w) (range_up 0 (length d) w) \<noteq> []"
  by (simp add: range_up_Cons)

text \<open>The text of a non-empty escaped string, cut at the \<^verbatim>\<open>=\<close> of the declaration.\<close>

lemma escaped_text:
  assumes "d \<noteq> []" and "0 < w"
  shows "binary_to_c_array d name w =
    Inr ((''unsigned char '' @ name @ ''[] '') @ CHR ''='' #
         ([newline] @
          py_join [newline] (map (escaped_line (map escape_value d) (nat w)) (range_up 0 (length d) (nat w))) @
          '';'' @ [newline] @ length_comment (length d)))"
proof -
  let ?L = "map (escaped_line (map escape_value d) (nat w)) (range_up 0 (length d) (nat w))"
  let ?C = "length_comment (length d)"
  have ne: "?L \<noteq> []"
    using assms by (intro escaped_lines_not_Nil) simp_all
  have "py_join [newline] (butlast ?L @ [last ?L @ '';'', ?C]) =
      py_join [newline] ((butlast ?L @ [last ?L @ '';'']) @ [?C])"
    by simp
  also have "\<dots> = py_join [newline] (butlast ?L @ [last ?L @ '';'']) @ [newline] @ ?C"
    by (rule py_join_snoc) simp
  also have "py_join [newline] (butlast ?L @ [last ?L @ '';'']) = py_join [newline] ?L @ '';''"
    using ne by (rule py_join_extend_last)
  finally have j: "py_join [newline] (butlast ?L @ [last ?L @ '';'', ?C]) =
      (py_join [newline] ?L @ '';'') @ [newline] @ ?C" .
  have "py_join [newline] ((''unsigned char '' @ name @ ''[] ='') # butlast ?L @ [last ?L @ '';'', ?C]) =
      (''unsigned char '' @ name @ ''[] ='') @ [newline] @
        py_join [newline] (butlast ?L @ [last ?L @ '';'', ?C])"
    by (rule py_join_Cons) simp
  then show ?thesis
    unfolding binary_to_c_array_def run_escaped_nonempty [OF assms] j
    by simp
qed

lemma escaped_initializer:
  assumes "d \<noteq> []" and "0 < w" and "binary_to_c_array d name w = Inr out"
  shows "initializer out =
    [newline] @
    py_join [newline] (map (escaped_line (map escape_value d) (nat w)) (range_up 0 (length d) (nat w))) @
    '';'' @ [newline] @ length_comment (length d)"
proof -
  let ?L = "map (escaped_line (map escape_value d) (nat w)) (range_up 0 (length d) (nat w))"
  let ?t = "[newline] @ py_join [newline] ?L @ '';'' @ [newline] @ length_comment (length d)"
  have out: "out = (''unsigned char '' @ name @ ''[] '') @ CHR ''='' # ?t"
    using escaped_text [OF assms(1,2), of name] assms(3) by simp
  have "CHR ''='' \<notin> set (escaped_line (map escape_value d) (nat w) i)" for i
    by (rule escaped_line_no_special)
       (simp add: hex_val_specials, simp_all add: backslash_def dquote_def)
  then have "\<forall>l \<in> set ?L. CHR ''='' \<notin> set l"
    by auto
  then have "CHR ''='' \<notin> set (py_join [newline] ?L)"
    by (intro py_join_lines_no_char) (simp_all add: newline_def)
  moreover have "CHR ''='' \<notin> set (length_comment (length d))"
    by (rule length_comment_no_special) simp
  ultimately have "CHR ''='' \<notin> set ?t"
    by (simp add: newline_def)
  then show ?thesis
    unfolding out by (rule initializer_after_eq)
qed

lemma escaped_quoted_text:
  assumes "d \<noteq> []" and "0 < w" and "binary_to_c_array d name w = Inr out"
  shows "quoted_text False (initializer out) = concat (map escape_value d)"
proof -
  from assms(2) have w: "0 < nat w" by simp
  let ?hv = "map escape_value d"
  let ?idxs = "range_up 0 (length d) (nat w)"
  let ?cs = "map (\<lambda>i. concat (py_slice ?hv i (i + nat w))) ?idxs"
  let ?s = "'';'' @ [newline] @ length_comment (length d)"
  have L: "map (escaped_line ?hv (nat w)) ?idxs = map (\<lambda>c. ''    '' @ dquote # c @ [dquote]) ?cs"
    by (simp add: escaped_line_unfold comp_def)
  have ne: "?cs \<noteq> []"
    using assms(1) w by (simp add: range_up_Cons)
  have "dquote \<notin> set (concat (py_slice ?hv i (i + nat w)))" for i
    by (rule escaped_content_no_special)
       (simp add: hex_val_specials, simp_all add: backslash_def dquote_def)
  then have nq: "\<forall>c \<in> set ?cs. dquote \<notin> set c"
    by auto
  have "dquote \<notin> set (length_comment (length d))"
    by (rule length_comment_no_special) simp
  then have "dquote \<notin> set ?s"
    by (simp add: dquote_def newline_def)
  then have tail: "quoted_text False ?s = []"
    by (rule quoted_text_none)
  have "quoted_text False (initializer out) =
      quoted_text False (py_join [newline] (map (\<lambda>c. ''    '' @ dquote # c @ [dquote]) ?cs) @ ?s)"
    unfolding escaped_initializer [OF assms] L
    by (simp add: newline_def dquote_def)
  also have "\<dots> = concat ?cs @ quoted_text False ?s"
    by (rule quoted_text_lines [OF ne nq]) (simp add: dquote_def)
  also have "concat ?cs = concat (concat (map (\<lambda>i. py_slice ?hv i (i + nat w)) ?idxs))"
    by (simp add: concat_map_concat [symmetric] comp_def)
  also have "concat (map (\<lambda>i. py_slice ?hv i (i + nat w)) ?idxs) = ?hv"
    using concat_slices [OF w, of ?hv 0] by simp
  finally show ?thesis
    using tail by simp
qed

lemma escaped_empty_quoted_text:
  "quoted_text False (initializer (''unsigned char '' @ name @ ''[] = '' @ [dquote, dquote] @ '';'')) = []"
proof -
  have "initializer ((''unsigned char '' @ name @ ''[] '') @ CHR ''='' # ('' '' @ [dquote, dquote] @ '';'')) =
      '' '' @ [dquote, dquote] @ '';''"
    by (rule initializer_after_eq) (simp add: dquote_def)
  then have "initializer (''unsigned char '' @ name @ ''[] = '' @ [dquote, dquote] @ '';'') =
      '' '' @ [dquote, dquote] @ '';''"
    by simp
  then show ?thesis
    by (simp add: dquote_def)
qed

lemma escaped_split_lines:
  assumes "d \<noteq> []" and "0 < w" and "newline \<notin> set name"
    and "binary_to_c_array d name w = Inr out"
  shows "split_lines out =
    (''unsigned char '' @ name @ ''[] ='') #
      butlast (map (escaped_line (map escape_value d) (nat w)) (range_up 0 (length d) (nat w))) @
      [last (map (escaped_line (map escape_value d) (nat w)) (range_up 0 (length d) (nat w))) @ '';'',
       length_comment (length d)]"
proof -
  let ?L = "map (escaped_line (map escape_value d) (nat w)) (range_up 0 (length d) (nat w))"
  let ?ls = "(''unsigned char '' @ name @ ''[] ='') # butlast ?L @ [last ?L @ '';'', length_comment (length d)]"
  have ne: "?L \<noteq> []"
    using assms by (intro escaped_lines_not_Nil) simp_all
  have out: "out = py_join [newline] ?ls"
    using run_escaped_nonempty [OF assms(1,2), of name] assms(4)
    by (simp add: binary_to_c_array_def)
  have line: "newline \<notin> set (escaped_line (map escape_value d) (nat w) i)" for i
    by (rule escaped_line_no_special)
       (simp add: hex_val_specials, simp_all add: backslash_def dquote_def newline_def)
  then have all: "\<forall>l \<in> set ?L. newline \<notin> set l"
    by auto
  then have "\<forall>l \<in> set (butlast ?L). newline \<notin> set l"
    by (meson in_set_butlastD)
  moreover have "newline \<notin> set (last ?L)"
    using all ne last_in_set by blast
  moreover have "newline \<notin> set (length_comment (length d))"
    by (rule length_comment_no_special) simp
  moreover have "newline \<notin> set (''unsigned char '' @ name @ ''[] ='')"
    using assms(3) by (simp add: newline_def)
  ultimately have "\<forall>l \<in> set ?ls. newline \<notin> set l"
    by (simp add: newline_def)
  then show ?thesis
    unfolding out split_lines_def by (intro split_on_join) simp_all
qed

lemma escaped_first_chunk_line:
  assumes "d \<noteq> []" and "0 < w"
  shows "(butlast (map (escaped_line (map escape_value d) w) (range_up 0 (length d) w)) @
          [last (map (escaped_line (map escape_value d) w) (range_up 0 (length d) w)) @ '';'']) ! 0 =
         ''    '' @ [dquote] @ concat (map escape_value (take w d)) @ [dquote] @
           (if length d \<le> w then '';'' else [])"
proof -
  let ?f = "escaped_line (map escape_value d) w"
  have idxs: "range_up 0 (length d) w = 0 # range_up w (length d) w"
    using assms range_up_Cons [of w 0 "length d"] by simp
  have l0: "?f 0 = ''    '' @ [dquote] @ concat (map escape_value (take w d)) @ [dquote]"
    by (simp add: escaped_line_unfold py_slice_def take_map)
  show ?thesis
  proof (cases "length d \<le> w")
    case True
    then have "range_up w (length d) w = []" by (rule range_up_Nil)
    with True l0 show ?thesis by (simp add: idxs)
  next
    case False
    then have "range_up w (length d) w \<noteq> []"
      using assms(2) range_up_Cons [of w w "length d"] by simp
    with False l0 show ?thesis by (simp add: idxs)
  qed
qed

subsection \<open>Worked examples\<close>

text \<open>
  The two formatters and the readers on concrete inputs, evaluated with the code equations.
  The inputs \<open>[0x7F, 0x45, 0x4C, 0x46]\<close> with width 2 (hex array) and width 12 (escaped
  string) are the examples of the specification.
\<close>

lemma multiline_example:
  "binary_to_c_array_multiline [0x7F, 0x45, 0x4C] ''buf'' 2 =
     Inr ''unsigned char buf[] = {\<newline>    0x7F, 0x45,\<newline>    0x4C\<newline>};\<newline>/* Length: 3 bytes */''"
  by code_simp

lemma multiline_example_value_lines:
  "value_lines ''unsigned char buf[] = {\<newline>    0x7F, 0x45,\<newline>    0x4C\<newline>};\<newline>/* Length: 3 bytes */'' =
     [''    0x7F, 0x45,'', ''    0x4C'']"
  by code_simp

lemma multiline_example_chunks:
  "map parse_value_line [''    0x7F, 0x45,'', ''    0x4C''] = [Some [0x7F, 0x45], Some [0x4C]]"
  by code_simp

lemma multiline_example_reparse:
  "reparse_hex_array ''unsigned char buf[] = {\<newline>    0x7F, 0x45,\<newline>    0x4C\<newline>};\<newline>/* Length: 3 bytes */'' =
     Some [0x7F, 0x45, 0x4C]"
  by code_simp

lemma multiline_spec_example:
  "binary_to_c_array_multiline [0x7F, 0x45, 0x4C, 0x46] ''buf'' 2 =
     Inr ''unsigned char buf[] = {\<newline>    0x7F, 0x45,\<newline>    0x4C, 0x46\<newline>};\<newline>/* Length: 4 bytes */''"
  by code_simp

lemma escaped_example:
  "binary_to_c_array [0x7F, 0x45, 0x4C] ''buf'' 2 =
     Inr (''unsigned char buf[] =\<newline>    '' @ [dquote, backslash] @ ''x7F'' @ [backslash] @ ''x45'' @
          [dquote] @ ''\<newline>    '' @ [dquote, backslash] @ ''x4C'' @ [dquote] @
          '';\<newline>/* Length: 3 bytes */'')"
  by code_simp

lemma escaped_example_reparse:
  "reparse_escaped (''unsigned char buf[] =\<newline>    '' @ [dquote, backslash] @ ''x7F'' @ [backslash] @ ''x45'' @
          [dquote] @ ''\<newline>    '' @ [dquote, backslash] @ ''x4C'' @ [dquote] @
          '';\<newline>/* Length: 3 bytes */'') = Some [0x7F, 0x45, 0x4C]"
  by code_simp

lemma escaped_example_lines:
  "split_lines (''unsigned char buf[] =\<newline>    '' @ [dquote, backslash] @ ''x7F'' @ [backslash] @ ''x45'' @
          [dquote] @ ''\<newline>    '' @ [dquote, backslash] @ ''x4C'' @ [dquote] @
          '';\<newline>/* Length: 3 bytes */'') =
     [''unsigned char buf[] ='',
      ''    '' @ [dquote, backslash] @ ''x7F'' @ [backslash] @ ''x45'' @ [dquote],
      ''    '' @ [dquote, backslash] @ ''x4C'' @ [dquote] @ '';'',
      ''/* Length: 3 bytes */'']"
  by code_simp

lemma escaped_spec_example:
  "binary_to_c_array [0x7F, 0x45, 0x4C, 0x46] ''buf'' 12 =
     Inr (''unsigned char buf[] =\<newline>    '' @ [dquote, backslash] @ ''x7F'' @ [backslash] @ ''x45'' @
          [backslash] @ ''x4C'' @ [backslash] @ ''x46'' @ [dquote] @ '';\<newline>/* Length: 4 bytes */'')"
  by code_simp

subsection \<open>Invocations in a store\<close>

lemma then_do_Inr: "then_do (Inr x) f = f x"
  by (simp add: then_do_def)

lemma then_do_Inl: "then_do (Inl e) f = Inl e"
  by (simp add: then_do_def)

lemma lift_error_Inr: "lift_error (Inr x) = Inr x"
  by (simp add: lift_error_def)

lemma lift_error_Inl: "lift_error (Inl e) = Inl (Raised e)"
  by (simp add: lift_error_def)

lemma get_bytes_less: "get_bytes h a = Inr d \<Longrightarrow> a < length h"
  by (simp add: get_bytes_def split: if_splits)

lemma get_bytes_snoc: "get_bytes h a = Inr d \<Longrightarrow> get_bytes (h @ [ob]) a = Inr d"
  by (simp add: get_bytes_def nth_append split: if_splits)

lemma get_lines_last: "get_lines (h @ [Lines ls]) (length h) = Inr ls"
  by (simp add: get_lines_def)

lemma heap_append_last:
  "heap_append (length h) line (h @ [Lines ls]) = Inr (h @ [Lines (ls @ [line])])"
  by (simp add: heap_append_def get_lines_last then_do_Inr)

lemma heap_extend_last_last:
  "ls \<noteq> [] \<Longrightarrow>
   heap_extend_last (length h) s (h @ [Lines ls]) =
     Inr (h @ [Lines (ls[length ls - 1 := last ls @ s])])"
  by (simp add: heap_extend_last_def get_lines_last then_do_Inr)

lemma fold_escaped_heap_step:
  "fold_steps (escaped_heap_step (length h) hv w) (h @ [Lines ls]) idxs =
     Inr (h @ [Lines (ls @ map (escaped_line hv w) idxs)])"
  by (induction idxs arbitrary: ls)
     (simp_all add: escaped_heap_step_def heap_append_last then_do_Inr)

lemma fold_multiline_heap_step:
  assumes "get_bytes h a = Inr d"
  shows "fold_steps (multiline_heap_step a (length h) w) (h @ [Lines ls]) idxs =
     Inr (h @ [Lines (ls @ map (hex_line d w) idxs)])"
  by (induction idxs arbitrary: ls)
     (simp_all add: multiline_heap_step_def heap_append_last then_do_Inr
        get_bytes_snoc [OF assms])

text \<open>The lines both styles hold when the loop over the given indices is done.\<close>

lemma run_escaped_ranged:
  assumes "d \<noteq> []" and "py_range (length d) w = Inr idxs"
  shows "run_binary_to_c_array d name w =
    Inr (py_join [newline]
          (((''unsigned char '' @ name @ ''[] ='') #
             map (escaped_line (map escape_value d) (nat w)) idxs)
           [length idxs :=
              last ((''unsigned char '' @ name @ ''[] ='') #
                 map (escaped_line (map escape_value d) (nat w)) idxs) @ '';''] @
           [length_comment (length d)]), d)"
proof -
  let ?h = "''unsigned char '' @ name @ ''[] =''"
  let ?L = "?h # map (escaped_line (map escape_value d) (nat w)) idxs"
  let ?fr2 = "foldl (escaped_step (map escape_value d) (nat w))
       (append_line ?h \<lparr>data = d, output_list = []\<rparr>) idxs"
  have out2: "output_list ?fr2 = ?L"
    by (simp add: output_foldl_escaped_step output_append_line)
  have d2: "data ?fr2 = d"
    by (simp add: data_foldl_escaped_step data_append_line)
  have ext: "extend_last '';'' ?fr2 = Inr (?fr2\<lparr>output_list := ?L[length idxs := last ?L @ '';'']\<rparr>)"
    unfolding extend_last_def out2 by simp
  show ?thesis
    unfolding run_binary_to_c_array_def Let_def
    by (simp only: if_not_P [OF assms(1)] length_map assms(2) sum.case ext
        output_append_line data_append_line d2 data_output_update output_output_update)
qed

lemma invoke_escaped_ranged:
  assumes "get_bytes h a = Inr d" and "d \<noteq> []" and "py_range (length d) w = Inr idxs"
  shows "\<exists>ls. invoke_binary_to_c_array h a name w = Inr (py_join [newline] ls, h @ [Lines ls]) \<and>
              run_binary_to_c_array d name w = Inr (py_join [newline] ls, d)"
proof -
  let ?h = "''unsigned char '' @ name @ ''[] =''"
  let ?L = "?h # map (escaped_line (map escape_value d) (nat w)) idxs"
  let ?ls = "?L[length idxs := last ?L @ '';''] @ [length_comment (length d)]"
  let ?X = "?L[length idxs := last ?L @ '';'']"
  have s1: "heap_append (length h) ?h (h @ [Lines []]) = Inr (h @ [Lines [?h]])"
    using heap_append_last [of h ?h "[]"] by simp
  have s2: "fold_steps (escaped_heap_step (length h) (map escape_value d) (nat w)) (h @ [Lines [?h]]) idxs =
      Inr (h @ [Lines ?L])"
    using fold_escaped_heap_step [of h "map escape_value d" "nat w" "[?h]" idxs] by simp
  have s3: "heap_extend_last (length h) '';'' (h @ [Lines ?L]) = Inr (h @ [Lines ?X])"
    using heap_extend_last_last [of ?L h "'';''"] by simp
  have s4: "get_bytes (h @ [Lines ?X]) a = Inr d"
    by (rule get_bytes_snoc [OF assms(1)])
  have s5: "heap_append (length h) (length_comment (length d)) (h @ [Lines ?X]) = Inr (h @ [Lines ?ls])"
    by (rule heap_append_last)
  have s6: "get_lines (h @ [Lines ?ls]) (length h) = Inr ?ls"
    by (rule get_lines_last)
  have "invoke_binary_to_c_array h a name w = Inr (py_join [newline] ?ls, h @ [Lines ?ls])"
    unfolding invoke_binary_to_c_array_def Let_def alloc_def
    by (simp only: assms(1) then_do_Inr if_not_P [OF assms(2)] prod.case length_map assms(3)
        lift_error_Inr s1 s2 s3 s4 s5 s6)
  with run_escaped_ranged [OF assms(2,3), of name] show ?thesis by blast
qed

lemma invoke_multiline_ranged:
  assumes "get_bytes h a = Inr d" and "d \<noteq> []" and "py_range (length d) w = Inr idxs"
  shows "\<exists>ls. invoke_binary_to_c_array_multiline h a name w =
                Inr (py_join [newline] ls, h @ [Lines ls]) \<and>
              run_binary_to_c_array_multiline d name w = Inr (py_join [newline] ls, d)"
proof -
  let ?h = "''unsigned char '' @ name @ ''[] = {''"
  let ?L = "?h # map (hex_line d (nat w)) idxs"
  let ?X = "?L @ [''};'']"
  let ?ls = "?X @ [length_comment (length d)]"
  have s1: "heap_append (length h) ?h (h @ [Lines []]) = Inr (h @ [Lines [?h]])"
    using heap_append_last [of h ?h "[]"] by simp
  have s1': "get_bytes (h @ [Lines [?h]]) a = Inr d"
    by (rule get_bytes_snoc [OF assms(1)])
  have s2: "fold_steps (multiline_heap_step a (length h) (nat w)) (h @ [Lines [?h]]) idxs =
      Inr (h @ [Lines ?L])"
    using fold_multiline_heap_step [OF assms(1), of "nat w" "[?h]" idxs] by simp
  have s3: "heap_append (length h) ''};'' (h @ [Lines ?L]) = Inr (h @ [Lines ?X])"
    by (rule heap_append_last)
  have s4: "get_bytes (h @ [Lines ?X]) a = Inr d"
    by (rule get_bytes_snoc [OF assms(1)])
  have s5: "heap_append (length h) (length_comment (length d)) (h @ [Lines ?X]) = Inr (h @ [Lines ?ls])"
    by (rule heap_append_last)
  have s6: "get_lines (h @ [Lines ?ls]) (length h) = Inr ?ls"
    by (rule get_lines_last)
  have "invoke_binary_to_c_array_multiline h a name w = Inr (py_join [newline] ?ls, h @ [Lines ?ls])"
    unfolding invoke_binary_to_c_array_multiline_def Let_def alloc_def
    by (simp only: assms(1) then_do_Inr if_not_P [OF assms(2)] prod.case assms(3)
        lift_error_Inr s1 s1' s2 s3 s4 s5 s6)
  moreover have "run_binary_to_c_array_multiline d name w = Inr (py_join [newline] ?ls, d)"
    using run_multiline_ranged [OF assms(2,3), of name] by simp
  ultimately show ?thesis by blast
qed

lemma invoke_escaped_empty:
  "get_bytes h a = Inr [] \<Longrightarrow>
   invoke_binary_to_c_array h a name w =
     Inr (''unsigned char '' @ name @ ''[] = '' @ [dquote, dquote] @ '';'', h)"
  by (simp add: invoke_binary_to_c_array_def then_do_Inr)

lemma invoke_multiline_empty:
  "get_bytes h a = Inr [] \<Longrightarrow>
   invoke_binary_to_c_array_multiline h a name w = Inr (''unsigned char '' @ name @ ''[] = {};'', h)"
  by (simp add: invoke_binary_to_c_array_multiline_def then_do_Inr)

lemma invoke_escaped_zero:
  assumes "get_bytes h a = Inr d" and "d \<noteq> []"
  shows "invoke_binary_to_c_array h a name 0 = Inl (Raised ValueError)"
proof -
  have s1: "heap_append (length h) (''unsigned char '' @ name @ ''[] ='') (h @ [Lines []]) =
      Inr (h @ [Lines [''unsigned char '' @ name @ ''[] ='']])"
    using heap_append_last [of h "''unsigned char '' @ name @ ''[] =''" "[]"] by simp
  show ?thesis
    unfolding invoke_binary_to_c_array_def Let_def alloc_def
    by (simp only: assms(1) then_do_Inr if_not_P [OF assms(2)] prod.case s1 py_range_zero
        lift_error_Inl then_do_Inl)
qed

lemma invoke_multiline_zero:
  assumes "get_bytes h a = Inr d" and "d \<noteq> []"
  shows "invoke_binary_to_c_array_multiline h a name 0 = Inl (Raised ValueError)"
proof -
  have s1: "heap_append (length h) (''unsigned char '' @ name @ ''[] = {'') (h @ [Lines []]) =
      Inr (h @ [Lines [''unsigned char '' @ name @ ''[] = {'']])"
    using heap_append_last [of h "''unsigned char '' @ name @ ''[] = {''" "[]"] by simp
  have s1': "get_bytes (h @ [Lines [''unsigned char '' @ name @ ''[] = {'']]) a = Inr d"
    by (rule get_bytes_snoc [OF assms(1)])
  show ?thesis
    unfolding invoke_binary_to_c_array_multiline_def Let_def alloc_def
    by (simp only: assms(1) then_do_Inr if_not_P [OF assms(2)] prod.case s1 s1' py_range_zero
        lift_error_Inl then_do_Inl)
qed

text \<open>
  An invocation in a store returns what the run on the contents of its data object returns,
  whatever else the store holds; and it leaves every object of the store as it found it,
  adding at most one object of its own at the end.
\<close>

lemma invoke_escaped_result:
  assumes "get_bytes h a = Inr d"
  shows "(\<exists>s h'. invoke_binary_to_c_array h a name w = Inr (s, h') \<and> prefix h h' \<and>
                 binary_to_c_array d name w = Inr s) \<or>
         (\<exists>e. invoke_binary_to_c_array h a name w = Inl (Raised e) \<and>
              binary_to_c_array d name w = Inl e)"
proof (cases "d = []")
  case True
  with assms show ?thesis
    by (simp add: invoke_escaped_empty binary_to_c_array_def run_escaped_empty)
next
  case ne: False
  show ?thesis
  proof (cases "w = 0")
    case True
    with ne assms show ?thesis
      by (simp add: invoke_escaped_zero binary_to_c_array_def run_escaped_zero)
  next
    case False
    then obtain idxs where "py_range (length d) w = Inr idxs"
      using py_range_nonzero by blast
    from invoke_escaped_ranged [OF assms ne this, of name] obtain ls
      where "invoke_binary_to_c_array h a name w = Inr (py_join [newline] ls, h @ [Lines ls])"
        and "run_binary_to_c_array d name w = Inr (py_join [newline] ls, d)"
      by blast
    then show ?thesis
      by (simp add: binary_to_c_array_def)
  qed
qed

lemma invoke_multiline_result:
  assumes "get_bytes h a = Inr d"
  shows "(\<exists>s h'. invoke_binary_to_c_array_multiline h a name w = Inr (s, h') \<and> prefix h h' \<and>
                 binary_to_c_array_multiline d name w = Inr s) \<or>
         (\<exists>e. invoke_binary_to_c_array_multiline h a name w = Inl (Raised e) \<and>
              binary_to_c_array_multiline d name w = Inl e)"
proof (cases "d = []")
  case True
  with assms show ?thesis
    by (simp add: invoke_multiline_empty binary_to_c_array_multiline_def run_multiline_empty)
next
  case ne: False
  show ?thesis
  proof (cases "w = 0")
    case True
    with ne assms show ?thesis
      by (simp add: invoke_multiline_zero binary_to_c_array_multiline_def run_multiline_zero)
  next
    case False
    then obtain idxs where "py_range (length d) w = Inr idxs"
      using py_range_nonzero by blast
    from invoke_multiline_ranged [OF assms ne this, of name] obtain ls
      where "invoke_binary_to_c_array_multiline h a name w = Inr (py_join [newline] ls, h @ [Lines ls])"
        and "run_binary_to_c_array_multiline d name w = Inr (py_join [newline] ls, d)"
      by blast
    then show ?thesis
      by (simp add: binary_to_c_array_multiline_def)
  qed
qed

lemma get_bytes_prefix: "get_bytes h a = Inr d \<Longrightarrow> prefix h h' \<Longrightarrow> get_bytes h' a = Inr d"
  by (auto simp: prefix_def get_bytes_def nth_append split: if_splits)

lemma invoke_escaped_fst:
  assumes "get_bytes h a = Inr d"
  shows "map_sum id fst (invoke_binary_to_c_array h a name w) = lift_error (binary_to_c_array d name w)"
  using invoke_escaped_result [OF assms, of name w]
  by (auto simp: lift_error_def)

lemma invoke_multiline_fst:
  assumes "get_bytes h a = Inr d"
  shows "map_sum id fst (invoke_binary_to_c_array_multiline h a name w) =
         lift_error (binary_to_c_array_multiline d name w)"
  using invoke_multiline_result [OF assms, of name w]
  by (auto simp: lift_error_def)

lemma invoke_escaped_prefix:
  assumes "get_bytes h a = Inr d" and "invoke_binary_to_c_array h a name w = Inr (s, h')"
  shows "prefix h h'"
  using invoke_escaped_result [OF assms(1), of name w] assms(2) by auto

lemma invoke_multiline_prefix:
  assumes "get_bytes h a = Inr d" and "invoke_binary_to_c_array_multiline h a name w = Inr (s, h')"
  shows "prefix h h'"
  using invoke_multiline_result [OF assms(1), of name w] assms(2) by auto

lemma invoke_escaped_example:
  "invoke_binary_to_c_array [Bytes [0x7F, 0x45]] 0 ''buf'' 12 =
     Inr (''unsigned char buf[] =\<newline>    '' @ [dquote, backslash] @ ''x7F'' @ [backslash] @ ''x45'' @
            [dquote] @ '';\<newline>/* Length: 2 bytes */'',
          [Bytes [0x7F, 0x45],
           Lines [''unsigned char buf[] ='',
                  ''    '' @ [dquote, backslash] @ ''x7F'' @ [backslash] @ ''x45'' @ [dquote] @ '';'',
                  ''/* Length: 2 bytes */'']])"
  by code_simp

lemma invoke_multiline_example:
  "invoke_binary_to_c_array_multiline [Bytes [0x7F, 0x45]] 0 ''buf'' 12 =
     Inr (''unsigned char buf[] = {\<newline>    0x7F, 0x45\<newline>};\<newline>/* Length: 2 bytes */'',
          [Bytes [0x7F, 0x45],
           Lines [''unsigned char buf[] = {'', ''    0x7F, 0x45'', ''};'', ''/* Length: 2 bytes */'']])"
  by code_simp

section \<open>The claims of the specification\<close>

subsection \<open>C1\<close>

text \<open>
  C1 (as amended). For the empty byte sequence \<^verbatim>\<open>binary_to_c_array_multiline\<close> returns
  exactly \<^verbatim>\<open>unsigned char <name>[] = {};\<close>, with no length comment after it, for every
  name and width. The line \<^verbatim>\<open>/* Length: N bytes */\<close> is the last line of the result
  for every non-empty input (and non-zero width) only.
\<close>

theorem multiline_empty_without_comment:
  "binary_to_c_array_multiline [] name w = Inr (''unsigned char '' @ name @ ''[] = {};'') \<and>
   (d \<noteq> [] \<longrightarrow> w \<noteq> 0 \<longrightarrow>
     (\<exists>body. binary_to_c_array_multiline d name w =
        Inr (body @ [newline] @ length_comment (length d))))"
proof -
  have "\<exists>body. binary_to_c_array_multiline d name w =
      Inr (body @ [newline] @ length_comment (length d))" if "d \<noteq> []" "w \<noteq> 0"
  proof -
    from that obtain b where
      "run_binary_to_c_array_multiline d name w = Inr (b @ [newline] @ length_comment (length d), d)"
      using run_multiline_nonzero by blast
    then show ?thesis by (simp add: binary_to_c_array_multiline_def)
  qed
  then show ?thesis
    by (simp add: binary_to_c_array_multiline_def run_multiline_empty)
qed

theorem multiline_empty_without_comment_witness:
  "binary_to_c_array_multiline [] ''buf'' 12 = Inr ''unsigned char buf[] = {};'' \<and>
   [0x7F :: byte] \<noteq> [] \<and> (12 :: int) \<noteq> 0 \<and>
   (\<exists>body. binary_to_c_array_multiline [0x7F] ''buf'' 12 =
      Inr (body @ [newline] @ ''/* Length: 1 bytes */''))"
  using multiline_empty_without_comment [of "''buf''" 12 "[0x7F]"]
  by (simp add: length_comment_def str_nat.simps)

text \<open>
  C1 as the specification states it fails: the result for the empty sequence, name
  \<^verbatim>\<open>buf\<close> and width 12 is not the declaration followed by \<^verbatim>\<open>/* Length: 0 bytes */\<close>.
\<close>

theorem multiline_empty_comment_counterexample:
  "binary_to_c_array_multiline [] ''buf'' 12 \<noteq>
     Inr (''unsigned char buf[] = {};'' @ [newline] @ ''/* Length: 0 bytes */'')"
  by (simp add: binary_to_c_array_multiline_def run_multiline_empty)

subsection \<open>C2\<close>

text \<open>
  C2 (as amended). For every non-empty byte sequence, every positive width and every name
  without a line break, the first line of the text of \<^verbatim>\<open>binary_to_c_array\<close> is exactly the
  header \<^verbatim>\<open>unsigned char <name>[] =\<close>; the first chunk stands on the second line: four
  blanks, then the first \<open>w\<close> bytes (all of them when there are fewer) as \<^verbatim>\<open>\xHH\<close> escapes
  between double quotes, then the semicolon when this chunk is the only one.
\<close>

theorem escaped_header_then_first_chunk:
  assumes "d \<noteq> []" and "0 < w" and "newline \<notin> set name"
  shows "\<exists>out.
     binary_to_c_array d name w = Inr out \<and>
     split_lines out ! 0 = ''unsigned char '' @ name @ ''[] ='' \<and>
     split_lines out ! 1 =
       ''    '' @ [dquote] @ concat (map escape_value (take (nat w) d)) @ [dquote] @
         (if length d \<le> nat w then '';'' else [])"
proof -
  from assms(2) have w: "0 < nat w" by simp
  let ?L = "map (escaped_line (map escape_value d) (nat w)) (range_up 0 (length d) (nat w))"
  obtain out where out: "binary_to_c_array d name w = Inr out"
    using escaped_text [OF assms(1,2)] by blast
  have "split_lines out =
      (''unsigned char '' @ name @ ''[] ='') #
        (butlast ?L @ [last ?L @ '';'']) @ [length_comment (length d)]"
    using escaped_split_lines [OF assms out] by simp
  then have "split_lines out ! 0 = ''unsigned char '' @ name @ ''[] =''"
    and "split_lines out ! 1 = (butlast ?L @ [last ?L @ '';'']) ! 0"
    by (simp_all add: nth_append)
  with out escaped_first_chunk_line [OF assms(1) w] show ?thesis
    by (intro exI [of _ out]) (simp only: simp_thms)
qed

theorem escaped_header_then_first_chunk_witness:
  "[0x7F, 0x45, 0x4C :: byte] \<noteq> [] \<and> (0 :: int) < 2 \<and> newline \<notin> set ''buf'' \<and>
   binary_to_c_array [0x7F, 0x45, 0x4C] ''buf'' 2 =
     Inr (''unsigned char buf[] =\<newline>    '' @ [dquote, backslash] @ ''x7F'' @ [backslash] @ ''x45'' @
          [dquote] @ ''\<newline>    '' @ [dquote, backslash] @ ''x4C'' @ [dquote] @
          '';\<newline>/* Length: 3 bytes */'') \<and>
   split_lines (''unsigned char buf[] =\<newline>    '' @ [dquote, backslash] @ ''x7F'' @ [backslash] @ ''x45'' @
          [dquote] @ ''\<newline>    '' @ [dquote, backslash] @ ''x4C'' @ [dquote] @
          '';\<newline>/* Length: 3 bytes */'') ! 0 = ''unsigned char buf[] ='' \<and>
   split_lines (''unsigned char buf[] =\<newline>    '' @ [dquote, backslash] @ ''x7F'' @ [backslash] @ ''x45'' @
          [dquote] @ ''\<newline>    '' @ [dquote, backslash] @ ''x4C'' @ [dquote] @
          '';\<newline>/* Length: 3 bytes */'') ! 1 =
     ''    '' @ [dquote] @ escape_value 0x7F @ escape_value 0x45 @ [dquote]"
proof -
  have ne: "[0x7F, 0x45, 0x4C :: byte] \<noteq> []" by simp
  have pos: "(0 :: int) < 2" by simp
  have nm: "newline \<notin> set ''buf''" by (simp add: newline_def)
  from escaped_header_then_first_chunk [OF ne pos nm] obtain out
    where "binary_to_c_array [0x7F, 0x45, 0x4C] ''buf'' 2 = Inr out"
      and "split_lines out ! 0 = ''unsigned char '' @ ''buf'' @ ''[] =''"
      and "split_lines out ! 1 =
        ''    '' @ [dquote] @ concat (map escape_value (take (nat 2) [0x7F, 0x45, 0x4C])) @ [dquote] @
          (if length [0x7F, 0x45, 0x4C :: byte] \<le> nat 2 then '';'' else [])"
    by blast
  then show ?thesis
    using ne pos nm by (simp add: escaped_example eval_nat_numeral)
qed

text \<open>
  C2 as the specification states it fails: for the one byte \<open>0x7F\<close>, name \<^verbatim>\<open>buf\<close> and width
  12 the first line of the text is the header alone; the chunk \<^verbatim>\<open>\x7F\<close> is not on it.
\<close>

theorem escaped_first_line_counterexample:
  "(case binary_to_c_array [0x7F] ''buf'' 12 of
      Inl e \<Rightarrow> False
    | Inr out \<Rightarrow>
        hd (split_lines out) = ''unsigned char buf[] ='' \<and>
        \<not> sublist (concat (map escape_value (take 12 [0x7F]))) (hd (split_lines out)))"
  by code_simp

subsection \<open>C3\<close>

text \<open>
  C3. For every byte sequence \<open>d\<close>, every name and every positive width,
  \<^verbatim>\<open>binary_to_c_array_multiline\<close> returns a text whose comma-separated \<^verbatim>\<open>0xHH\<close> tokens,
  read back in order, are exactly \<open>d\<close>.
\<close>

theorem hex_array_round_trip:
  assumes "0 < w"
  shows "\<exists>out. binary_to_c_array_multiline d name w = Inr out \<and> reparse_hex_array out = Some d"
proof (cases "d = []")
  case True
  have "binary_to_c_array_multiline [] name w = Inr (''unsigned char '' @ name @ ''[] = {};'')"
    by (simp add: binary_to_c_array_multiline_def run_multiline_empty)
  moreover have "reparse_hex_array (''unsigned char '' @ name @ ''[] = {};'') = Some []"
    unfolding reparse_hex_array_def multiline_empty_value_lines by simp
  ultimately show ?thesis using True by simp
next
  case False
  from assms have w: "0 < nat w" by simp
  obtain out where out: "binary_to_c_array_multiline d name w = Inr out"
    using multiline_text [OF False assms] by blast
  have "those (map parse_value_line (value_lines out)) =
      Some (map (\<lambda>i. py_slice d i (i + nat w)) (range_up 0 (length d) (nat w)))"
    unfolding multiline_value_lines [OF False assms out] parse_value_lines_chunks [OF w]
    by (rule those_map_Some)
  then have "reparse_hex_array out = Some d"
    using concat_slices [OF w, of d 0] by (simp add: reparse_hex_array_def)
  with out show ?thesis by blast
qed

theorem hex_array_round_trip_witness:
  "(0 :: int) < 2 \<and>
   binary_to_c_array_multiline [0x7F, 0x45, 0x4C] ''buf'' 2 =
     Inr ''unsigned char buf[] = {\<newline>    0x7F, 0x45,\<newline>    0x4C\<newline>};\<newline>/* Length: 3 bytes */'' \<and>
   reparse_hex_array ''unsigned char buf[] = {\<newline>    0x7F, 0x45,\<newline>    0x4C\<newline>};\<newline>/* Length: 3 bytes */'' =
     Some [0x7F, 0x45, 0x4C]"
  using hex_array_round_trip [of 2 "[0x7F, 0x45, 0x4C]" "''buf''"]
  by (simp add: multiline_example)

subsection \<open>C4\<close>

text \<open>
  C4. For every byte sequence \<open>d\<close>, every name and every positive width,
  \<^verbatim>\<open>binary_to_c_array\<close> returns a text whose string literals, quotes stripped and adjacent
  literals concatenated, are a run of \<^verbatim>\<open>\xHH\<close> escapes that reads back as exactly \<open>d\<close>.
\<close>

theorem escaped_round_trip:
  assumes "0 < w"
  shows "\<exists>out. binary_to_c_array d name w = Inr out \<and> reparse_escaped out = Some d"
proof (cases "d = []")
  case True
  have "binary_to_c_array [] name w =
      Inr (''unsigned char '' @ name @ ''[] = '' @ [dquote, dquote] @ '';'')"
    by (simp add: binary_to_c_array_def run_escaped_empty)
  moreover have "reparse_escaped (''unsigned char '' @ name @ ''[] = '' @ [dquote, dquote] @ '';'') = Some []"
    unfolding reparse_escaped_def escaped_empty_quoted_text by simp
  ultimately show ?thesis using True by simp
next
  case False
  obtain out where out: "binary_to_c_array d name w = Inr out"
    using escaped_text [OF False assms] by blast
  have "reparse_escaped out = Some d"
    unfolding reparse_escaped_def escaped_quoted_text [OF False assms out]
    by (rule parse_escapes_values)
  with out show ?thesis by blast
qed

theorem escaped_round_trip_witness:
  "(0 :: int) < 2 \<and>
   binary_to_c_array [0x7F, 0x45, 0x4C] ''buf'' 2 =
     Inr (''unsigned char buf[] =\<newline>    '' @ [dquote, backslash] @ ''x7F'' @ [backslash] @ ''x45'' @
          [dquote] @ ''\<newline>    '' @ [dquote, backslash] @ ''x4C'' @ [dquote] @
          '';\<newline>/* Length: 3 bytes */'') \<and>
   reparse_escaped (''unsigned char buf[] =\<newline>    '' @ [dquote, backslash] @ ''x7F'' @ [backslash] @ ''x45'' @
          [dquote] @ ''\<newline>    '' @ [dquote, backslash] @ ''x4C'' @ [dquote] @
          '';\<newline>/* Length: 3 bytes */'') = Some [0x7F, 0x45, 0x4C]"
  using escaped_round_trip [of 2 "[0x7F, 0x45, 0x4C]" "''buf''"]
  by (simp add: escaped_example)

subsection \<open>C5\<close>

text \<open>
  C5. For every non-empty byte sequence \<open>d\<close> and every positive width \<open>w\<close>, the text of
  \<^verbatim>\<open>binary_to_c_array_multiline\<close> has, between its opening brace and its closing brace,
  the value lines and nothing else; there are \<open>\<lceil>length d / w\<rceil>\<close> of them; every value line
  reads back as a chunk of bytes, all chunks but the last of \<open>w\<close> bytes, the last of 1 to
  \<open>w\<close> bytes; and the chunks have \<open>length d\<close> tokens in all.
\<close>

theorem hex_array_value_line_count:
  assumes "d \<noteq> []" and "0 < w"
  shows "\<exists>out chunks.
     binary_to_c_array_multiline d name w = Inr out \<and>
     split_lines (brace_body out) = [] # value_lines out @ [[]] \<and>
     int (length (value_lines out)) = \<lceil>real (length d) / real_of_int w\<rceil> \<and>
     map parse_value_line (value_lines out) = map Some chunks \<and>
     (\<forall>c \<in> set (butlast chunks). length c = nat w) \<and>
     0 < length (last chunks) \<and> length (last chunks) \<le> nat w \<and>
     sum_list (map length chunks) = length d"
proof -
  from assms have w: "0 < nat w" by simp
  let ?idxs = "range_up 0 (length d) (nat w)"
  let ?chunks = "map (\<lambda>i. py_slice d i (i + nat w)) ?idxs"
  obtain out where out: "binary_to_c_array_multiline d name w = Inr out"
    using multiline_text [OF assms] by blast
  note vl = multiline_value_lines [OF assms out]
  have "split_lines (brace_body out) = [] # value_lines out @ [[]]"
    unfolding vl by (rule multiline_body_lines [OF assms out])
  moreover have "int (length (value_lines out)) = \<lceil>real (length d) / real_of_int w\<rceil>"
    unfolding vl using length_range_up_ceiling [OF assms(2), of "length d"] by simp
  moreover have "map parse_value_line (value_lines out) = map Some ?chunks"
    unfolding vl by (rule parse_value_lines_chunks [OF w])
  moreover have "sum_list (map length ?chunks) = length d"
    using concat_slices [OF w, of d 0] length_concat [of ?chunks] by simp
  ultimately show ?thesis
    using out chunks_shape(2-4) [OF w assms(1)] by blast
qed

theorem hex_array_value_line_count_witness:
  "[0x7F, 0x45, 0x4C :: byte] \<noteq> [] \<and> (0 :: int) < 2 \<and>
   binary_to_c_array_multiline [0x7F, 0x45, 0x4C] ''buf'' 2 =
     Inr ''unsigned char buf[] = {\<newline>    0x7F, 0x45,\<newline>    0x4C\<newline>};\<newline>/* Length: 3 bytes */'' \<and>
   value_lines ''unsigned char buf[] = {\<newline>    0x7F, 0x45,\<newline>    0x4C\<newline>};\<newline>/* Length: 3 bytes */'' =
     [''    0x7F, 0x45,'', ''    0x4C''] \<and>
   (\<lceil>real (length [0x7F, 0x45, 0x4C :: byte]) / real_of_int 2\<rceil> = 2) \<and>
   (\<exists>chunks.
     map parse_value_line [''    0x7F, 0x45,'', ''    0x4C''] = map Some chunks \<and>
     list_all (\<lambda>c. length c = 2) (butlast chunks) \<and>
     0 < length (last chunks) \<and> length (last chunks) \<le> 2 \<and>
     sum_list (map length chunks) = 3)"
proof -
  have ne: "[0x7F, 0x45, 0x4C :: byte] \<noteq> []" by simp
  have pos: "(0 :: int) < 2" by simp
  from hex_array_value_line_count [OF ne pos, of "''buf''"] obtain out chunks
    where out: "binary_to_c_array_multiline [0x7F, 0x45, 0x4C] ''buf'' 2 = Inr out"
      and n: "int (length (value_lines out)) = \<lceil>real (length [0x7F, 0x45, 0x4C :: byte]) / real_of_int 2\<rceil>"
      and c: "map parse_value_line (value_lines out) = map Some chunks"
        "\<forall>c \<in> set (butlast chunks). length c = nat 2"
        "0 < length (last chunks)" "length (last chunks) \<le> nat 2"
        "sum_list (map length chunks) = length [0x7F, 0x45, 0x4C :: byte]"
    by blast
  from out have eq: "out = ''unsigned char buf[] = {\<newline>    0x7F, 0x45,\<newline>    0x4C\<newline>};\<newline>/* Length: 3 bytes */''"
    by (simp add: multiline_example)
  have "\<exists>chunks.
     map parse_value_line [''    0x7F, 0x45,'', ''    0x4C''] = map Some chunks \<and>
     list_all (\<lambda>c. length c = 2) (butlast chunks) \<and>
     0 < length (last chunks) \<and> length (last chunks) \<le> 2 \<and>
     sum_list (map length chunks) = 3"
    using c unfolding eq multiline_example_value_lines
    by (intro exI [of _ chunks]) (simp add: list_all_iff)
  moreover have "\<lceil>real (length [0x7F, 0x45, 0x4C :: byte]) / real_of_int 2\<rceil> = 2"
    using n unfolding eq multiline_example_value_lines by simp
  ultimately show ?thesis
    using ne pos multiline_example multiline_example_value_lines by blast
qed

subsection \<open>C6\<close>

text \<open>
  C6. For every non-empty byte sequence and every positive width, the text of
  \<^verbatim>\<open>binary_to_c_array_multiline\<close> has at least one value line, every value line but the last
  ends with a comma, and the last value line does not.
\<close>

theorem hex_array_trailing_commas:
  assumes "d \<noteq> []" and "0 < w"
  shows "\<exists>out.
     binary_to_c_array_multiline d name w = Inr out \<and>
     value_lines out \<noteq> [] \<and>
     (\<forall>i < length (value_lines out).
        (last (value_lines out ! i) = CHR '','') = (i + 1 < length (value_lines out)))"
proof -
  from assms have w: "0 < nat w" by simp
  obtain out where out: "binary_to_c_array_multiline d name w = Inr out"
    using multiline_text [OF assms] by blast
  note vl = multiline_value_lines [OF assms out]
  have "value_lines out \<noteq> []"
    unfolding vl using assms w by (simp add: range_up_Cons)
  moreover have "(last (value_lines out ! i) = CHR '','') = (i + 1 < length (value_lines out))"
    if "i < length (value_lines out)" for i
    using that last_value_lines [OF w assms(1), of i] unfolding vl by simp
  ultimately show ?thesis using out by blast
qed

theorem hex_array_trailing_commas_witness:
  "[0x7F, 0x45, 0x4C :: byte] \<noteq> [] \<and> (0 :: int) < 2 \<and>
   binary_to_c_array_multiline [0x7F, 0x45, 0x4C] ''buf'' 2 =
     Inr ''unsigned char buf[] = {\<newline>    0x7F, 0x45,\<newline>    0x4C\<newline>};\<newline>/* Length: 3 bytes */'' \<and>
   value_lines ''unsigned char buf[] = {\<newline>    0x7F, 0x45,\<newline>    0x4C\<newline>};\<newline>/* Length: 3 bytes */'' =
     [''    0x7F, 0x45,'', ''    0x4C''] \<and>
   last ''    0x7F, 0x45,'' = CHR '','' \<and> last ''    0x4C'' \<noteq> CHR '',''"
proof -
  have ne: "[0x7F, 0x45, 0x4C :: byte] \<noteq> []" by simp
  have pos: "(0 :: int) < 2" by simp
  from hex_array_trailing_commas [OF ne pos, of "''buf''"] obtain out
    where out: "binary_to_c_array_multiline [0x7F, 0x45, 0x4C] ''buf'' 2 = Inr out"
      and c: "\<forall>i < length (value_lines out).
        (last (value_lines out ! i) = CHR '','') = (i + 1 < length (value_lines out))"
    by blast
  from out have eq: "out = ''unsigned char buf[] = {\<newline>    0x7F, 0x45,\<newline>    0x4C\<newline>};\<newline>/* Length: 3 bytes */''"
    by (simp add: multiline_example)
  note c' = c [unfolded eq multiline_example_value_lines]
  from c' [rule_format, of 0] c' [rule_format, of 1]
  have "last ''    0x7F, 0x45,'' = CHR '',''" and "last ''    0x4C'' \<noteq> CHR '',''"
    by simp_all
  then show ?thesis
    using ne pos multiline_example multiline_example_value_lines by blast
qed

subsection \<open>C7\<close>

text \<open>
  C7. For the empty byte sequence \<^verbatim>\<open>binary_to_c_array\<close> returns exactly the single line
  \<^verbatim>\<open>unsigned char <name>[] = "";\<close>, nothing after it, for every name and width.
\<close>

theorem escaped_empty_single_line:
  "binary_to_c_array [] name w = Inr (''unsigned char '' @ name @ ''[] = '' @ [dquote, dquote] @ '';'')"
  by (simp add: binary_to_c_array_def run_escaped_empty)

theorem escaped_empty_single_line_witness:
  "binary_to_c_array [] ''buf'' 12 = Inr (''unsigned char buf[] = '' @ [CHR 0x22, CHR 0x22] @ '';'')"
  using escaped_empty_single_line [of "''buf''" 12] by (simp add: dquote_def)

subsection \<open>C8\<close>

text \<open>
  C8. For every byte sequence, name and positive width both formatters return a string
  (no exception), and the caller's byte sequence is, after the call, what it was before.
\<close>

theorem formatters_total_and_leave_data:
  assumes "0 < w"
  shows "(\<exists>s. run_binary_to_c_array d name w = Inr (s, d) \<and> binary_to_c_array d name w = Inr s) \<and>
         (\<exists>s. run_binary_to_c_array_multiline d name w = Inr (s, d) \<and>
              binary_to_c_array_multiline d name w = Inr s)"
proof -
  have e: "\<exists>s. run_binary_to_c_array d name w = Inr (s, d)"
    using assms run_escaped_empty [of name w] run_escaped_nonzero [of d w name]
    by (cases "d = []") auto
  have m: "\<exists>s. run_binary_to_c_array_multiline d name w = Inr (s, d)"
    using assms run_multiline_empty [of name w] run_multiline_nonzero [of d w name]
    by (cases "d = []") auto
  from e m show ?thesis
    by (auto simp: binary_to_c_array_def binary_to_c_array_multiline_def)
qed

theorem formatters_total_and_leave_data_witness:
  "(0 :: int) < 2 \<and>
   (\<exists>s. run_binary_to_c_array [0x7F, 0x45, 0x4C] ''buf'' 2 = Inr (s, [0x7F, 0x45, 0x4C]) \<and>
        binary_to_c_array [0x7F, 0x45, 0x4C] ''buf'' 2 = Inr s) \<and>
   (\<exists>s. run_binary_to_c_array_multiline [0x7F, 0x45, 0x4C] ''buf'' 2 = Inr (s, [0x7F, 0x45, 0x4C]) \<and>
        binary_to_c_array_multiline [0x7F, 0x45, 0x4C] ''buf'' 2 = Inr s)"
  using formatters_total_and_leave_data [of 2 "[0x7F, 0x45, 0x4C]" "''buf''"] by simp

subsection \<open>C9\<close>

text \<open>
  C9. Both formatters are deterministic, and no state is shared between runs. An invocation
  takes a store of objects, the address of its data in it, the name and the width. Its
  result (string or exception) is the same in any two stores whose data objects hold the
  same bytes, whatever else the stores hold and wherever the data stands: it is the result
  of the formatter on these bytes, this name and this width. An invocation that returns
  leaves every object of the store as it was and adds only its own list at the end; a
  further invocation of either formatter in the store it leaves behind returns what it
  returns in the store before.
\<close>

theorem invocations_deterministic:
  assumes "get_bytes h1 a1 = Inr d" and "get_bytes h2 a2 = Inr d"
  shows
    "map_sum id fst (invoke_binary_to_c_array h1 a1 name w) =
       map_sum id fst (invoke_binary_to_c_array h2 a2 name w) \<and>
     map_sum id fst (invoke_binary_to_c_array_multiline h1 a1 name w) =
       map_sum id fst (invoke_binary_to_c_array_multiline h2 a2 name w) \<and>
     map_sum id fst (invoke_binary_to_c_array h1 a1 name w) = lift_error (binary_to_c_array d name w) \<and>
     map_sum id fst (invoke_binary_to_c_array_multiline h1 a1 name w) =
       lift_error (binary_to_c_array_multiline d name w) \<and>
     (\<forall>s h'. invoke_binary_to_c_array h1 a1 name w = Inr (s, h') \<longrightarrow>
        prefix h1 h' \<and>
        map_sum id fst (invoke_binary_to_c_array h' a1 name w) = Inr s \<and>
        map_sum id fst (invoke_binary_to_c_array_multiline h' a1 name w) =
          map_sum id fst (invoke_binary_to_c_array_multiline h1 a1 name w)) \<and>
     (\<forall>s h'. invoke_binary_to_c_array_multiline h1 a1 name w = Inr (s, h') \<longrightarrow>
        prefix h1 h' \<and>
        map_sum id fst (invoke_binary_to_c_array_multiline h' a1 name w) = Inr s \<and>
        map_sum id fst (invoke_binary_to_c_array h' a1 name w) =
          map_sum id fst (invoke_binary_to_c_array h1 a1 name w))"
proof -
  have e: "map_sum id fst (invoke_binary_to_c_array h a name w) = lift_error (binary_to_c_array d name w)"
    if "get_bytes h a = Inr d" for h a
    using that by (rule invoke_escaped_fst)
  have m: "map_sum id fst (invoke_binary_to_c_array_multiline h a name w) =
      lift_error (binary_to_c_array_multiline d name w)"
    if "get_bytes h a = Inr d" for h a
    using that by (rule invoke_multiline_fst)
  have after_e: "prefix h1 h' \<and>
        map_sum id fst (invoke_binary_to_c_array h' a1 name w) = Inr s \<and>
        map_sum id fst (invoke_binary_to_c_array_multiline h' a1 name w) =
          map_sum id fst (invoke_binary_to_c_array_multiline h1 a1 name w)"
    if r: "invoke_binary_to_c_array h1 a1 name w = Inr (s, h')" for s h'
  proof -
    have p: "prefix h1 h'"
      using assms(1) r by (rule invoke_escaped_prefix)
    then have g: "get_bytes h' a1 = Inr d"
      using assms(1) get_bytes_prefix by blast
    have "map_sum id fst (invoke_binary_to_c_array h' a1 name w) =
        map_sum id fst (invoke_binary_to_c_array h1 a1 name w)"
      by (simp only: e [OF g] e [OF assms(1)])
    with r p m [OF g] m [OF assms(1)] show ?thesis by simp
  qed
  have after_m: "prefix h1 h' \<and>
        map_sum id fst (invoke_binary_to_c_array_multiline h' a1 name w) = Inr s \<and>
        map_sum id fst (invoke_binary_to_c_array h' a1 name w) =
          map_sum id fst (invoke_binary_to_c_array h1 a1 name w)"
    if r: "invoke_binary_to_c_array_multiline h1 a1 name w = Inr (s, h')" for s h'
  proof -
    have p: "prefix h1 h'"
      using assms(1) r by (rule invoke_multiline_prefix)
    then have g: "get_bytes h' a1 = Inr d"
      using assms(1) get_bytes_prefix by blast
    have "map_sum id fst (invoke_binary_to_c_array_multiline h' a1 name w) =
        map_sum id fst (invoke_binary_to_c_array_multiline h1 a1 name w)"
      by (simp only: m [OF g] m [OF assms(1)])
    with r p e [OF g] e [OF assms(1)] show ?thesis by simp
  qed
  show ?thesis
    using e [OF assms(1)] e [OF assms(2)] m [OF assms(1)] m [OF assms(2)] after_e after_m
    by (intro conjI allI impI) simp_all
qed

theorem invocations_deterministic_witness:
  "get_bytes [Bytes [0x7F, 0x45]] 0 = Inr [0x7F, 0x45] \<and>
   get_bytes [Lines [''left over''], Bytes [0x7F, 0x45]] 1 = Inr [0x7F, 0x45] \<and>
   map_sum id fst (invoke_binary_to_c_array [Lines [''left over''], Bytes [0x7F, 0x45]] 1 ''buf'' 12) =
     Inr (''unsigned char buf[] =\<newline>    '' @ [dquote, backslash] @ ''x7F'' @ [backslash] @ ''x45'' @
            [dquote] @ '';\<newline>/* Length: 2 bytes */'') \<and>
   map_sum id fst (invoke_binary_to_c_array_multiline [Lines [''left over''], Bytes [0x7F, 0x45]] 1 ''buf'' 12) =
     Inr ''unsigned char buf[] = {\<newline>    0x7F, 0x45\<newline>};\<newline>/* Length: 2 bytes */'' \<and>
   map_sum id fst (invoke_binary_to_c_array
       [Bytes [0x7F, 0x45],
        Lines [''unsigned char buf[] = {'', ''    0x7F, 0x45'', ''};'', ''/* Length: 2 bytes */'']]
       0 ''buf'' 12) =
     Inr (''unsigned char buf[] =\<newline>    '' @ [dquote, backslash] @ ''x7F'' @ [backslash] @ ''x45'' @
            [dquote] @ '';\<newline>/* Length: 2 bytes */'')"
proof -
  have g1: "get_bytes [Bytes [0x7F, 0x45]] 0 = Inr [0x7F, 0x45]"
    by (simp add: get_bytes_def)
  have g2: "get_bytes [Lines [''left over''], Bytes [0x7F, 0x45]] 1 = Inr [0x7F, 0x45]"
    by (simp add: get_bytes_def)
  note t = invocations_deterministic [OF g1 g2, of "''buf''" 12]
  from t have a: "map_sum id fst (invoke_binary_to_c_array [Bytes [0x7F, 0x45]] 0 ''buf'' 12) =
      map_sum id fst (invoke_binary_to_c_array [Lines [''left over''], Bytes [0x7F, 0x45]] 1 ''buf'' 12)"
    by blast
  from t have b: "map_sum id fst (invoke_binary_to_c_array_multiline [Bytes [0x7F, 0x45]] 0 ''buf'' 12) =
      map_sum id fst (invoke_binary_to_c_array_multiline [Lines [''left over''], Bytes [0x7F, 0x45]] 1 ''buf'' 12)"
    by blast
  from t invoke_multiline_example
  have c: "map_sum id fst (invoke_binary_to_c_array
       [Bytes [0x7F, 0x45],
        Lines [''unsigned char buf[] = {'', ''    0x7F, 0x45'', ''};'', ''/* Length: 2 bytes */'']]
       0 ''buf'' 12) = map_sum id fst (invoke_binary_to_c_array [Bytes [0x7F, 0x45]] 0 ''buf'' 12)"
    by blast
  show ?thesis
    using g1 g2 a [symmetric] b [symmetric] c
    by (simp only: invoke_escaped_example invoke_multiline_example) simp
qed

subsection \<open>C10\<close>

text \<open>
  C10. With width 0 and a non-empty byte sequence both formatters raise \<^verbatim>\<open>ValueError\<close>;
  for the empty sequence they return their special-case result for every width, 0 included.
  A formatter raises exactly when the sequence is non-empty and the width is 0.
\<close>

theorem zero_width_raises_on_nonempty:
  "(d \<noteq> [] \<longrightarrow>
      binary_to_c_array d name 0 = Inl ValueError \<and>
      binary_to_c_array_multiline d name 0 = Inl ValueError) \<and>
   binary_to_c_array [] name w = Inr (''unsigned char '' @ name @ ''[] = '' @ [dquote, dquote] @ '';'') \<and>
   binary_to_c_array_multiline [] name w = Inr (''unsigned char '' @ name @ ''[] = {};'') \<and>
   ((\<exists>e. binary_to_c_array d name w = Inl e) \<longleftrightarrow> d \<noteq> [] \<and> w = 0) \<and>
   ((\<exists>e. binary_to_c_array_multiline d name w = Inl e) \<longleftrightarrow> d \<noteq> [] \<and> w = 0)"
  using escaped_raises_iff [of d name w] multiline_raises_iff [of d name w]
  by (simp add: binary_to_c_array_def binary_to_c_array_multiline_def run_escaped_empty
      run_multiline_empty run_escaped_zero run_multiline_zero)

theorem zero_width_raises_on_nonempty_witness:
  "[0x7F :: byte] \<noteq> [] \<and>
   binary_to_c_array [0x7F] ''buf'' 0 = Inl ValueError \<and>
   binary_to_c_array_multiline [0x7F] ''buf'' 0 = Inl ValueError \<and>
   binary_to_c_array [] ''buf'' 0 = Inr (''unsigned char buf[] = '' @ [CHR 0x22, CHR 0x22] @ '';'') \<and>
   binary_to_c_array_multiline [] ''buf'' 0 = Inr ''unsigned char buf[] = {};''"
  using zero_width_raises_on_nonempty [of "[0x7F]" "''buf''" 0] by (simp add: dquote_def)

end
